theory Spec2Isabelle
  imports Complex_Main "HOL-Library.Multiset" "HOL-Library.Log_Nat"
    "HOL-Library.Char_ord" "HOL-Library.List_Lexorder"
begin

section \<open>Expense tracker: the view-model of \<open>src/expenses/src/app/page.tsx\<close>\<close>

text \<open>
  The page component keeps a list of expenses, a draft, three filter criteria and an error
  message. This theory embeds its logic: the load and persist effects, the filtered
  timeline, the totals, the submit handler and the delete handler. The fields \<open>id\<close> and
  \<open>note\<close> of an expense are called \<open>id_field\<close> and \<open>note_field\<close> here, the total is
  \<open>total_of\<close>, and \<open>includes\<close> and \<open>Number\<close> are \<open>includes_str\<close> and \<open>js_Number\<close>.

  Conventions of the embedding.
  \<^item> A JavaScript string is a \<open>string\<close>; a \<open>char\<close> stands for one UTF-16 code unit in the
    range U+0000 to U+00FF, so upper and lower case, and white space, are those of Latin-1.
  \<^item> A JavaScript number is a \<open>jsnum\<close>: \<open>NaN\<close>, an infinity, or a finite value carried as
    the exact rational it denotes. Reading a number from text and the operators \<open>+\<close>, \<open>-\<close>
    and \<open>/\<close> round to binary64. Negative zero is identified with zero.
  \<^item> Library functions whose result the ECMAScript standard leaves to the implementation
    (\<open>localeCompare\<close>, \<open>Date.parse\<close>), the two JSON functions, the random id and the clock
    are parameters of the functions that call them.
\<close>

subsection \<open>Numbers\<close>

datatype jsnum = NaN | PosInf | NegInf | Fin rat

text \<open>
  Rounding of a rational to binary64, to nearest with ties to even: the exponent is that of
  the value, not below the subnormal exponent; the significand is the value divided by the
  unit in the last place, rounded; a result of \<open>2 ^ 1024\<close> or more is an infinity.
\<close>

definition pow2 :: "int \<Rightarrow> rat" where
  "pow2 e = (if 0 \<le> e then 2 ^ nat e else 1 / 2 ^ nat (- e))"

definition ilog2 :: "rat \<Rightarrow> int" where
  "ilog2 a = (if 1 \<le> a then bitlen \<lfloor>a\<rfloor> - 1 else - bitlen (\<lceil>1 / a\<rceil> - 1))"

definition round_half_even :: "rat \<Rightarrow> int" where
  "round_half_even x =
     (let n = \<lfloor>x\<rfloor>; f = x - of_int n
      in if f < 1 / 2 then n else if 1 / 2 < f then n + 1 else if even n then n else n + 1)"

definition fl_pos :: "rat \<Rightarrow> jsnum" where
  "fl_pos a =
     (let e = max (ilog2 a) (- 1022);
          u = pow2 (e - 52);
          k = round_half_even (a / u)
      in if 1023 < e \<or> (e = 1023 \<and> k = 2 ^ 53) then PosInf else Fin (of_int k * u))"

fun js_neg :: "jsnum \<Rightarrow> jsnum" where
  "js_neg NaN = NaN"
| "js_neg PosInf = NegInf"
| "js_neg NegInf = PosInf"
| "js_neg (Fin q) = Fin (- q)"

definition fl :: "rat \<Rightarrow> jsnum" where
  "fl q = (if q = 0 then Fin 0 else if 0 < q then fl_pos q else js_neg (fl_pos (- q)))"

text \<open>
  Every finite binary64 value is a whole multiple of the least positive one, \<open>2 ^ - 1074\<close>.
\<close>

fun on_grid :: "jsnum \<Rightarrow> bool" where
  "on_grid (Fin r) = (\<exists>j :: int. r = of_int j * pow2 (- 1074))"
| "on_grid NaN = True"
| "on_grid PosInf = True"
| "on_grid NegInf = True"

text \<open>The operators \<open>+\<close>, \<open>-\<close> and \<open>/\<close> on numbers; a zero divisor is the positive zero.\<close>

fun js_add :: "jsnum \<Rightarrow> jsnum \<Rightarrow> jsnum" where
  "js_add (Fin a) (Fin b) = fl (a + b)"
| "js_add (Fin a) PosInf = PosInf"
| "js_add (Fin a) NegInf = NegInf"
| "js_add (Fin a) NaN = NaN"
| "js_add PosInf (Fin b) = PosInf"
| "js_add PosInf PosInf = PosInf"
| "js_add PosInf NegInf = NaN"
| "js_add PosInf NaN = NaN"
| "js_add NegInf (Fin b) = NegInf"
| "js_add NegInf NegInf = NegInf"
| "js_add NegInf PosInf = NaN"
| "js_add NegInf NaN = NaN"
| "js_add NaN y = NaN"

definition js_sub :: "jsnum \<Rightarrow> jsnum \<Rightarrow> jsnum" where
  "js_sub x y = js_add x (js_neg y)"

fun js_div :: "jsnum \<Rightarrow> jsnum \<Rightarrow> jsnum" where
  "js_div (Fin a) (Fin b) =
     (if b = 0 then (if a = 0 then NaN else if 0 < a then PosInf else NegInf)
      else fl (a / b))"
| "js_div (Fin a) PosInf = Fin 0"
| "js_div (Fin a) NegInf = Fin 0"
| "js_div (Fin a) NaN = NaN"
| "js_div PosInf (Fin b) = (if 0 \<le> b then PosInf else NegInf)"
| "js_div NegInf (Fin b) = (if 0 \<le> b then NegInf else PosInf)"
| "js_div PosInf PosInf = NaN"
| "js_div PosInf NegInf = NaN"
| "js_div PosInf NaN = NaN"
| "js_div NegInf PosInf = NaN"
| "js_div NegInf NegInf = NaN"
| "js_div NegInf NaN = NaN"
| "js_div NaN y = NaN"

fun js_le :: "jsnum \<Rightarrow> jsnum \<Rightarrow> bool" where
  "js_le (Fin a) (Fin b) = (a \<le> b)"
| "js_le (Fin a) PosInf = True"
| "js_le (Fin a) NegInf = False"
| "js_le (Fin a) NaN = False"
| "js_le PosInf PosInf = True"
| "js_le PosInf (Fin b) = False"
| "js_le PosInf NegInf = False"
| "js_le PosInf NaN = False"
| "js_le NegInf (Fin b) = True"
| "js_le NegInf PosInf = True"
| "js_le NegInf NegInf = True"
| "js_le NegInf NaN = False"
| "js_le NaN y = False"

fun isFinite :: "jsnum \<Rightarrow> bool" where
  "isFinite (Fin q) = True"
| "isFinite PosInf = False"
| "isFinite NegInf = False"
| "isFinite NaN = False"

fun isNaN :: "jsnum \<Rightarrow> bool" where
  "isNaN NaN = True"
| "isNaN PosInf = False"
| "isNaN NegInf = False"
| "isNaN (Fin q) = False"

text \<open>A number in a condition: zero and \<open>NaN\<close> count as false.\<close>

fun truthy :: "jsnum \<Rightarrow> bool" where
  "truthy NaN = False"
| "truthy (Fin q) = (q \<noteq> 0)"
| "truthy PosInf = True"
| "truthy NegInf = True"

text \<open>The sign of a comparator's result as the sort reads it: \<open>NaN\<close> counts as zero.\<close>

fun js_sign :: "jsnum \<Rightarrow> int" where
  "js_sign NaN = 0"
| "js_sign PosInf = 1"
| "js_sign NegInf = - 1"
| "js_sign (Fin q) = (if q < 0 then - 1 else if q = 0 then 0 else 1)"

subsection \<open>The data model\<close>

record expense =
  id_field :: string
  description :: string
  category :: string
  amount :: jsnum
  date :: string
  note_field :: "string option"
  createdAt :: string

subsection \<open>Strings\<close>

text \<open>
  White space as \<open>String.prototype.trim\<close> sees it below U+0100: TAB, LF, VT, FF, CR, SP
  and NBSP.
\<close>

definition is_space :: "char \<Rightarrow> bool" where
  "is_space c = (c \<in> set [CHR 0x09, CHR 0x0A, CHR 0x0B, CHR 0x0C, CHR 0x0D, CHR 0x20, CHR 0xA0])"

definition trimStart :: "string \<Rightarrow> string" where
  "trimStart s = dropWhile is_space s"

definition trim :: "string \<Rightarrow> string" where
  "trim s = rev (dropWhile is_space (rev (dropWhile is_space s)))"

text \<open>Lower case below U+0100: A to Z, and the Latin-1 capitals except the multiplication sign.\<close>

definition lower_char :: "char \<Rightarrow> char" where
  "lower_char c =
     (let n = (of_char c :: nat)
      in if (65 \<le> n \<and> n \<le> 90) \<or> (192 \<le> n \<and> n \<le> 222 \<and> n \<noteq> 215)
         then char_of (n + 32) else c)"

definition toLowerCase :: "string \<Rightarrow> string" where
  "toLowerCase s = map lower_char s"

fun startsWith :: "string \<Rightarrow> string \<Rightarrow> bool" where
  "startsWith s [] = True"
| "startsWith [] (p # ps) = False"
| "startsWith (c # cs) (p # ps) = (c = p \<and> startsWith cs ps)"

fun includes_str :: "string \<Rightarrow> string \<Rightarrow> bool" where
  "includes_str [] needle = (needle = [])"
| "includes_str (c # cs) needle = (startsWith (c # cs) needle \<or> includes_str cs needle)"

subsection \<open>Text to number\<close>

definition is_digit :: "char \<Rightarrow> bool" where
  "is_digit c = (48 \<le> (of_char c :: nat) \<and> (of_char c :: nat) \<le> 57)"

definition digit_val :: "char \<Rightarrow> int" where
  "digit_val c = of_char c - 48"

definition digits_val :: "string \<Rightarrow> int" where
  "digits_val ds = foldl (\<lambda>n c. 10 * n + digit_val c) 0 ds"

definition pow10 :: "int \<Rightarrow> rat" where
  "pow10 e = (if 0 \<le> e then 10 ^ nat e else 1 / 10 ^ nat (- e))"

text \<open>
  The exponent part of a decimal literal, \<open>e\<close> or \<open>E\<close> with an optionally signed run of
  digits: its value and the text after it. Without a complete exponent part nothing is
  consumed.
\<close>

definition exponent_part :: "string \<Rightarrow> int \<times> string" where
  "exponent_part s =
     (case s of
        [] \<Rightarrow> (0, s)
      | c # r \<Rightarrow>
          if c = CHR ''e'' \<or> c = CHR ''E'' then
            (case r of
               [] \<Rightarrow> (0, s)
             | d # r' \<Rightarrow>
                 if d = CHR ''+'' \<and> takeWhile is_digit r' \<noteq> []
                 then (digits_val (takeWhile is_digit r'), dropWhile is_digit r')
                 else if d = CHR ''-'' \<and> takeWhile is_digit r' \<noteq> []
                 then (- digits_val (takeWhile is_digit r'), dropWhile is_digit r')
                 else if is_digit d
                 then (digits_val (takeWhile is_digit r), dropWhile is_digit r)
                 else (0, s))
          else (0, s))"

text \<open>
  The longest prefix that is a \<open>StrUnsignedDecimalLiteral\<close>: \<open>Infinity\<close>, or digits with an
  optional fraction and exponent, or a fraction with an optional exponent. The result is the
  number the prefix denotes, rounded, and the text after the prefix.
\<close>

definition unsigned_decimal :: "string \<Rightarrow> (jsnum \<times> string) option" where
  "unsigned_decimal s =
     (if startsWith s ''Infinity'' then Some (PosInf, drop 8 s)
      else
        let ip = takeWhile is_digit s;
            r1 = dropWhile is_digit s;
            (fp, r2) =
              (case r1 of
                 [] \<Rightarrow> ([], r1)
               | c # r \<Rightarrow>
                   if c = CHR ''.'' \<and> (ip \<noteq> [] \<or> takeWhile is_digit r \<noteq> [])
                   then (takeWhile is_digit r, dropWhile is_digit r)
                   else ([], r1))
        in if ip = [] \<and> fp = [] then None
           else
             let (ex, r3) = exponent_part r2
             in Some (fl (of_int (digits_val (ip @ fp)) * pow10 (ex - int (length fp))), r3))"

definition str_decimal :: "string \<Rightarrow> (jsnum \<times> string) option" where
  "str_decimal s =
     (case s of
        [] \<Rightarrow> None
      | c # r \<Rightarrow>
          if c = CHR ''+'' then unsigned_decimal r
          else if c = CHR ''-'' then map_option (\<lambda>(v, t). (js_neg v, t)) (unsigned_decimal r)
          else unsigned_decimal s)"

text \<open>\<open>Number.parseFloat\<close>: leading white space is skipped, trailing text is ignored.\<close>

definition parseFloat :: "string \<Rightarrow> jsnum" where
  "parseFloat s = (case str_decimal (trimStart s) of None \<Rightarrow> NaN | Some (v, t) \<Rightarrow> v)"

text \<open>
  \<open>Number\<close> on a string: white space around is dropped, the empty text is zero, and the
  whole rest must be one literal, decimal or with a radix prefix.
\<close>

definition radix_digit :: "char \<Rightarrow> int option" where
  "radix_digit c =
     (let n = (of_char c :: int)
      in if 48 \<le> n \<and> n \<le> 57 then Some (n - 48)
         else if 97 \<le> n \<and> n \<le> 102 then Some (n - 87)
         else if 65 \<le> n \<and> n \<le> 70 then Some (n - 55)
         else None)"

fun radix_digits :: "int \<Rightarrow> int \<Rightarrow> string \<Rightarrow> int option" where
  "radix_digits radix acc [] = Some acc"
| "radix_digits radix acc (c # cs) =
     (case radix_digit c of
        None \<Rightarrow> None
      | Some d \<Rightarrow> if d < radix then radix_digits radix (radix * acc + d) cs else None)"

definition radix_literal :: "int \<Rightarrow> string \<Rightarrow> jsnum" where
  "radix_literal radix ds =
     (if ds = [] then NaN
      else case radix_digits radix 0 ds of None \<Rightarrow> NaN | Some n \<Rightarrow> fl (of_int n))"

definition js_Number :: "string \<Rightarrow> jsnum" where
  "js_Number s =
     (let t = trim s
      in if t = [] then Fin 0
         else if startsWith t ''0x'' \<or> startsWith t ''0X'' then radix_literal 16 (drop 2 t)
         else if startsWith t ''0o'' \<or> startsWith t ''0O'' then radix_literal 8 (drop 2 t)
         else if startsWith t ''0b'' \<or> startsWith t ''0B'' then radix_literal 2 (drop 2 t)
         else case str_decimal t of Some (v, []) \<Rightarrow> v | _ \<Rightarrow> NaN)"

text \<open>
  \<open>Number(x.toFixed(2))\<close>. Below \<open>10 ^ 21\<close> \<open>toFixed\<close> prints the integer \<open>n\<close> for which
  \<open>n / 100\<close> is closest to the magnitude of \<open>x\<close>, the larger of two, with two fraction digits,
  and \<open>Number\<close> reads that numeral back; from \<open>10 ^ 21\<close> on it prints \<open>x\<close> as \<open>String\<close> does, which
  reads back as \<open>x\<close>.
\<close>

definition toFixed2 :: "rat \<Rightarrow> rat" where
  "toFixed2 x = (if x < 0 then - (of_int \<lfloor>- x * 100 + 1 / 2\<rfloor> / 100)
                 else of_int \<lfloor>x * 100 + 1 / 2\<rfloor> / 100)"

fun Number_toFixed2 :: "jsnum \<Rightarrow> jsnum" where
  "Number_toFixed2 (Fin x) = (if \<bar>x\<bar> < 10 ^ 21 then fl (toFixed2 x) else Fin x)"
| "Number_toFixed2 PosInf = PosInf"
| "Number_toFixed2 NegInf = NegInf"
| "Number_toFixed2 NaN = NaN"

subsection \<open>Days of a month\<close>

text \<open>
  \<open>new Date(year, month, 0).getDate()\<close>. The constructor truncates its arguments, maps the
  years 0 to 99 to 1900 to 1999, carries months beyond a year into the year, and yields an
  invalid date, whose day of the month is \<open>NaN\<close>, when the time value is more than
  \<open>8.64e15\<close> milliseconds from the epoch. Day 0 of a month is the last day of the month
  before it. Local time is taken to be UTC.
\<close>

definition ToIntegerOrInfinity :: "rat \<Rightarrow> int" where
  "ToIntegerOrInfinity q = (if 0 \<le> q then \<lfloor>q\<rfloor> else \<lceil>q\<rceil>)"

definition InLeapYear :: "int \<Rightarrow> bool" where
  "InLeapYear y = (y mod 4 = 0 \<and> (y mod 100 \<noteq> 0 \<or> y mod 400 = 0))"

definition DayFromYear :: "int \<Rightarrow> int" where
  "DayFromYear y =
     365 * (y - 1970) + (y - 1969) div 4 - (y - 1901) div 100 + (y - 1601) div 400"

definition month_lengths :: "int \<Rightarrow> int list" where
  "month_lengths y =
     [31, if InLeapYear y then 29 else 28, 31, 30, 31, 30, 31, 31, 30, 31, 30, 31]"

definition new_Date_getDate :: "jsnum \<Rightarrow> jsnum \<Rightarrow> jsnum" where
  "new_Date_getDate year month =
     (case (year, month) of
        (Fin y, Fin m) \<Rightarrow>
          let yi = ToIntegerOrInfinity y;
              yr = (if 0 \<le> yi \<and> yi \<le> 99 then 1900 + yi else yi);
              mi = ToIntegerOrInfinity m;
              ym = yr + mi div 12;
              mn = nat (mi mod 12);
              day = DayFromYear ym + sum_list (take mn (month_lengths ym)) - 1
          in if 8640000000000000 < \<bar>day * 86400000\<bar> then NaN
             else if mn = 0 then Fin (of_int (month_lengths (ym - 1) ! 11))
             else Fin (of_int (month_lengths ym ! (mn - 1)))
      | _ \<Rightarrow> NaN)"

text \<open>
  The calendar as the specification reads it: the number of days of month \<open>m\<close>, from 1 to 12,
  of the Gregorian year \<open>y\<close>.
\<close>

definition calendar_days :: "int \<Rightarrow> int \<Rightarrow> int" where
  "calendar_days y m =
     (if m = 2 then (if y mod 400 = 0 \<or> (y mod 4 = 0 \<and> y mod 100 \<noteq> 0) then 29 else 28)
      else if m = 4 \<or> m = 6 \<or> m = 9 \<or> m = 11 then 30 else 31)"

subsection \<open>Sorting\<close>

text \<open>
  \<open>Array.prototype.sort\<close> is stable, and for a consistent comparator its result is the one
  stable sorted permutation. Insertion from the right computes it: an element goes in front
  of the first element it does not compare greater than. A comparator's result is kept as
  an integer of the same sign.
\<close>

fun insort_by :: "('a \<Rightarrow> 'a \<Rightarrow> int) \<Rightarrow> 'a \<Rightarrow> 'a list \<Rightarrow> 'a list" where
  "insort_by cmp x [] = [x]"
| "insort_by cmp x (y # ys) = (if cmp x y \<le> 0 then x # y # ys else y # insort_by cmp x ys)"

definition js_sort :: "('a \<Rightarrow> 'a \<Rightarrow> int) \<Rightarrow> 'a list \<Rightarrow> 'a list" where
  "js_sort cmp xs = foldr (insort_by cmp) xs []"

text \<open>
  \<open>localeCompare\<close> is a parameter \<open>lc\<close>; \<open>lc x y\<close> is negative when \<open>x\<close> sorts before \<open>y\<close>.
  The comparison is consistent when it is zero on equal strings only, antisymmetric and
  transitive, as it is on ISO dates and timestamps.
\<close>

definition consistent_compare :: "(string \<Rightarrow> string \<Rightarrow> int) \<Rightarrow> bool" where
  "consistent_compare lc \<longleftrightarrow>
     (\<forall>x y. lc x y = 0 \<longleftrightarrow> x = y) \<and>
     (\<forall>x y. lc x y < 0 \<longleftrightarrow> 0 < lc y x) \<and>
     (\<forall>x y z. lc x y < 0 \<and> lc y z < 0 \<longrightarrow> lc x z < 0)"

text \<open>Comparison by code units, the instance used in the examples.\<close>

definition code_unit_compare :: "string \<Rightarrow> string \<Rightarrow> int" where
  "code_unit_compare x y = (if x < y then - 1 else if x = y then 0 else 1)"

subsection \<open>The filtered timeline\<close>

text \<open>
  \<open>filteredExpenses\<close>: the month filter, the category filter and the search filter, then the
  sort by date and creation time, both descending.
\<close>

definition byMonth :: "string \<Rightarrow> expense list \<Rightarrow> expense list" where
  "byMonth month expenses = filter (\<lambda>expense. startsWith (date expense) month) expenses"

definition byCategory :: "string \<Rightarrow> string \<Rightarrow> expense list \<Rightarrow> expense list" where
  "byCategory month categoryFilter expenses =
     (if categoryFilter = ''all'' then byMonth month expenses
      else filter (\<lambda>expense. category expense = categoryFilter) (byMonth month expenses))"

definition search_match :: "string \<Rightarrow> expense \<Rightarrow> bool" where
  "search_match searchTerm expense =
     (let needle = toLowerCase (trim searchTerm)
      in includes_str (toLowerCase (description expense)) needle \<or>
         (case note_field expense of None \<Rightarrow> False
          | Some n \<Rightarrow> includes_str (toLowerCase n) needle))"

definition bySearch :: "string \<Rightarrow> string \<Rightarrow> string \<Rightarrow> expense list \<Rightarrow> expense list" where
  "bySearch month categoryFilter searchTerm expenses =
     (if trim searchTerm \<noteq> []
      then filter (search_match searchTerm) (byCategory month categoryFilter expenses)
      else byCategory month categoryFilter expenses)"

definition expense_cmp :: "(string \<Rightarrow> string \<Rightarrow> int) \<Rightarrow> expense \<Rightarrow> expense \<Rightarrow> int" where
  "expense_cmp lc a b =
     (if date a = date b then lc (createdAt b) (createdAt a) else lc (date b) (date a))"

definition filteredExpenses ::
  "(string \<Rightarrow> string \<Rightarrow> int) \<Rightarrow> string \<Rightarrow> string \<Rightarrow> string \<Rightarrow> expense list \<Rightarrow> expense list" where
  "filteredExpenses lc month categoryFilter searchTerm expenses =
     js_sort (expense_cmp lc) (bySearch month categoryFilter searchTerm expenses)"

text \<open>
  What the specification means by a case-insensitive match: some stretch of the text has
  the length of the term and agrees with it character by character up to case.
\<close>

definition same_letter :: "char \<Rightarrow> char \<Rightarrow> bool" where
  "same_letter c d \<longleftrightarrow> lower_char c = lower_char d"

definition contains_ignoring_case :: "string \<Rightarrow> string \<Rightarrow> bool" where
  "contains_ignoring_case text term \<longleftrightarrow>
     (\<exists>before mid after. text = before @ mid @ after \<and> list_all2 same_letter mid term)"

subsection \<open>The totals\<close>

text \<open>\<open>filteredExpenses.reduce((sum, expense) => sum + expense.amount, 0)\<close>\<close>

definition total_of :: "expense list \<Rightarrow> jsnum" where
  "total_of filtered = foldl (\<lambda>sum expense. js_add sum (amount expense)) (Fin 0) filtered"

text \<open>
  The aggregation by category is an object used as a map. Its own properties are kept in
  the order of their creation. A category that names a property every object inherits
  (\<open>acc[expense.category]\<close> is then a function, not a number) is outside this model: the
  aggregation is \<open>None\<close>.
\<close>

definition inherited_names :: "string list" where
  "inherited_names =
     [''constructor'', ''hasOwnProperty'', ''isPrototypeOf'', ''propertyIsEnumerable'',
      ''toLocaleString'', ''toString'', ''valueOf'', ''__proto__'', ''__defineGetter__'',
      ''__defineSetter__'', ''__lookupGetter__'', ''__lookupSetter__'']"

fun set_property :: "string \<Rightarrow> jsnum \<Rightarrow> (string \<times> jsnum) list \<Rightarrow> (string \<times> jsnum) list" where
  "set_property k v [] = [(k, v)]"
| "set_property k v ((k', v') # acc) =
     (if k = k' then (k, v) # acc else (k', v') # set_property k v acc)"

definition add_to_category :: "(string \<times> jsnum) list \<Rightarrow> expense \<Rightarrow> (string \<times> jsnum) list" where
  "add_to_category acc expense =
     set_property (category expense)
       (js_add (case map_of acc (category expense) of None \<Rightarrow> Fin 0 | Some v \<Rightarrow> v)
          (amount expense))
       acc"

definition categories :: "expense list \<Rightarrow> (string \<times> jsnum) list option" where
  "categories filtered =
     (if \<exists>expense \<in> set filtered. category expense \<in> set inherited_names then None
      else Some (foldl add_to_category [] filtered))"

definition daysInMonth :: "string \<Rightarrow> jsnum" where
  "daysInMonth month =
     (if month \<noteq> [] then new_Date_getDate (js_Number (take 4 month)) (js_Number (drop 5 month))
      else Fin 30)"

definition dailyAverage :: "string \<Rightarrow> expense list \<Rightarrow> jsnum" where
  "dailyAverage month filtered =
     (if truthy (daysInMonth month) then js_div (total_of filtered) (daysInMonth month)
      else total_of filtered)"

text \<open>
  \<open>Object.entries\<close> lists the keys that are array indices first, in ascending numeric
  order, and then the other keys in the order of their creation. An array index is the
  canonical numeral of an integer below \<open>2 ^ 32 - 1\<close>.
\<close>

definition is_array_index :: "string \<Rightarrow> bool" where
  "is_array_index k \<longleftrightarrow>
     k \<noteq> [] \<and> list_all is_digit k \<and> (k = ''0'' \<or> hd k \<noteq> CHR ''0'') \<and>
     digits_val k < 4294967295"

definition Object_entries :: "(string \<times> jsnum) list \<Rightarrow> (string \<times> jsnum) list" where
  "Object_entries obj =
     js_sort (\<lambda>a b. digits_val (fst a) - digits_val (fst b))
       (filter (\<lambda>p. is_array_index (fst p)) obj)
     @ filter (\<lambda>p. \<not> is_array_index (fst p)) obj"

text \<open>\<open>Object.entries(byCategory).sort((a, b) => b[1] - a[1])[0]\<close>, or \<open>null\<close>.\<close>

definition topCategory :: "(string \<times> jsnum) list \<Rightarrow> (string \<times> jsnum) option" where
  "topCategory obj =
     (case js_sort (\<lambda>a b. js_sign (js_sub (snd b) (snd a))) (Object_entries obj) of
        [] \<Rightarrow> None
      | first # others \<Rightarrow> Some first)"

subsection \<open>The durable slot\<close>

text \<open>
  The value \<open>JSON.parse\<close> returns. An object is the list of its members as they are
  written; of two members with one key the later counts.
\<close>

datatype json = JNull | JBool bool | JNum jsnum | JStr string | JArr "json list"
  | JObj "(string \<times> json) list"

datatype js_error = TypeError | SyntaxError

text \<open>
  Reading a property: of \<open>null\<close> it throws; of an object it is the member or \<open>undefined\<close>
  (\<open>None\<close>). No property the load effect asks for exists on a number, a string, a boolean or
  an array.
\<close>

fun get_prop :: "json \<Rightarrow> string \<Rightarrow> js_error + json option" where
  "get_prop JNull k = Inl TypeError"
| "get_prop (JObj members) k = Inr (map_of (rev members) k)"
| "get_prop (JBool b) k = Inr None"
| "get_prop (JNum n) k = Inr None"
| "get_prop (JStr s) k = Inr None"
| "get_prop (JArr items) k = Inr None"

fun typeof :: "json option \<Rightarrow> string" where
  "typeof None = ''undefined''"
| "typeof (Some (JBool b)) = ''boolean''"
| "typeof (Some (JNum n)) = ''number''"
| "typeof (Some (JStr s)) = ''string''"
| "typeof (Some JNull) = ''object''"
| "typeof (Some (JArr items)) = ''object''"
| "typeof (Some (JObj members)) = ''object''"

definition prop_has_type :: "json \<Rightarrow> string \<Rightarrow> string \<Rightarrow> js_error + bool" where
  "prop_has_type item k t =
     (case get_prop item k of Inl e \<Rightarrow> Inl e | Inr v \<Rightarrow> Inr (typeof v = t))"

text \<open>The operator \<open>&&\<close> on a left operand that may throw.\<close>

fun and_then :: "js_error + bool \<Rightarrow> js_error + bool \<Rightarrow> js_error + bool" where
  "and_then (Inl e) r = Inl e"
| "and_then (Inr False) r = Inr False"
| "and_then (Inr True) r = r"

definition is_expense :: "json \<Rightarrow> js_error + bool" where
  "is_expense item =
     and_then (prop_has_type item ''id'' ''string'')
       (and_then (prop_has_type item ''description'' ''string'')
          (and_then (prop_has_type item ''category'' ''string'')
             (and_then (prop_has_type item ''amount'' ''number'')
                (prop_has_type item ''date'' ''string''))))"

fun js_filter :: "('a \<Rightarrow> js_error + bool) \<Rightarrow> 'a list \<Rightarrow> js_error + 'a list" where
  "js_filter p [] = Inr []"
| "js_filter p (x # xs) =
     (case p x of
        Inl e \<Rightarrow> Inl e
      | Inr keep \<Rightarrow>
          (case js_filter p xs of
             Inl e \<Rightarrow> Inl e
           | Inr kept \<Rightarrow> Inr (if keep then x # kept else kept)))"

text \<open>The \<open>date\<close> of an item that passed the filter, where it is a string.\<close>

definition date_of :: "json \<Rightarrow> string" where
  "date_of item = (case get_prop item ''date'' of Inr (Some (JStr s)) \<Rightarrow> s | _ \<Rightarrow> [])"

text \<open>
  The body of the \<open>try\<close> block of the load effect. \<open>Inr None\<close>: it returns without setting
  the expenses; \<open>Inr (Some xs)\<close>: it sets them to \<open>xs\<close>; \<open>Inl e\<close>: it throws \<open>e\<close>.
  \<open>JSON.parse\<close> is the parameter \<open>parse\<close>, \<open>None\<close> where it throws.
\<close>

definition load_body ::
  "(string \<Rightarrow> json option) \<Rightarrow> (string \<Rightarrow> string \<Rightarrow> int) \<Rightarrow> string option
   \<Rightarrow> js_error + json list option" where
  "load_body parse lc slot =
     (case slot of
        None \<Rightarrow> Inr None
      | Some raw \<Rightarrow>
          if raw = [] then Inr None
          else
            (case parse raw of
               None \<Rightarrow> Inl SyntaxError
             | Some parsed \<Rightarrow>
                 (case parsed of
                    JArr items \<Rightarrow>
                      (case js_filter is_expense items of
                         Inl e \<Rightarrow> Inl e
                       | Inr kept \<Rightarrow>
                           Inr (Some (js_sort (\<lambda>a b. lc (date_of b) (date_of a)) kept)))
                  | _ \<Rightarrow> Inr None)))"

text \<open>The effect with its \<open>catch\<close>: what the expenses are afterwards.\<close>

definition load_effect ::
  "(string \<Rightarrow> json option) \<Rightarrow> (string \<Rightarrow> string \<Rightarrow> int) \<Rightarrow> string option
   \<Rightarrow> json list \<Rightarrow> json list" where
  "load_effect parse lc slot expenses =
     (case load_body parse lc slot of Inr (Some loaded) \<Rightarrow> loaded | _ \<Rightarrow> expenses)"

text \<open>The effect runs once, on the initial state, where the list of expenses is empty.\<close>

definition load :: "(string \<Rightarrow> json option) \<Rightarrow> (string \<Rightarrow> string \<Rightarrow> int) \<Rightarrow> string option \<Rightarrow> json list" where
  "load parse lc slot = load_effect parse lc slot []"

text \<open>
  What \<open>JSON.stringify\<close> writes for an expense: its fields in the order of their creation,
  \<open>note\<close> left out where it is \<open>undefined\<close>, and \<open>null\<close> for an amount that is not finite.
\<close>

definition number_to_json :: "jsnum \<Rightarrow> json" where
  "number_to_json n = (if isFinite n then JNum n else JNull)"

definition expense_to_json :: "expense \<Rightarrow> json" where
  "expense_to_json e =
     JObj ([(''id'', JStr (id_field e)), (''description'', JStr (description e)),
            (''category'', JStr (category e)), (''amount'', number_to_json (amount e)),
            (''date'', JStr (date e))]
           @ (case note_field e of None \<Rightarrow> [] | Some n \<Rightarrow> [(''note'', JStr n)])
           @ [(''createdAt'', JStr (createdAt e))])"

text \<open>
  The persist effect: the slot after \<open>setItem(STORAGE_KEY, JSON.stringify(expenses))\<close>, with
  the text of a value given by the parameter \<open>stringify\<close>.
\<close>

definition save :: "(json \<Rightarrow> string) \<Rightarrow> expense list \<Rightarrow> string option" where
  "save stringify expenses = Some (stringify (JArr (map expense_to_json expenses)))"

text \<open>The shape the specification asks of a stored entry.\<close>

definition well_formed :: "json \<Rightarrow> bool" where
  "well_formed item \<longleftrightarrow>
     (\<exists>members. item = JObj members \<and>
        (\<exists>s. map_of (rev members) ''id'' = Some (JStr s)) \<and>
        (\<exists>s. map_of (rev members) ''description'' = Some (JStr s)) \<and>
        (\<exists>s. map_of (rev members) ''category'' = Some (JStr s)) \<and>
        (\<exists>n. map_of (rev members) ''amount'' = Some (JNum n)) \<and>
        (\<exists>s. map_of (rev members) ''date'' = Some (JStr s)))"

subsection \<open>The submit handler\<close>

record draftExpense =
  draft_description :: string
  draft_category :: string
  draft_amount :: string
  draft_date :: string
  draft_note :: string

record page_state =
  expenses :: "expense list"
  draft :: draftExpense
  error :: "string option"

datatype submit_error = EmptyDescription | InvalidAmount | InvalidDate

fun error_text :: "submit_error \<Rightarrow> string" where
  "error_text EmptyDescription = ''Add a short description to remember the expense.''"
| "error_text InvalidAmount = ''Amount should be a positive number.''"
| "error_text InvalidDate = ''Choose a valid date.''"

text \<open>
  \<open>handleSubmit\<close>. \<open>Date.parse\<close>, the random id and the time of the call are the parameters
  \<open>Date_parse\<close>, \<open>uuid\<close> and \<open>now\<close>.
\<close>

definition handleSubmit ::
  "(string \<Rightarrow> jsnum) \<Rightarrow> string \<Rightarrow> string \<Rightarrow> page_state \<Rightarrow> page_state" where
  "handleSubmit Date_parse uuid now st =
     (let st0 = st\<lparr>error := None\<rparr>;
          trimmedDescription = trim (draft_description (draft st))
      in if trimmedDescription = [] then st0\<lparr>error := Some (error_text EmptyDescription)\<rparr>
         else
           let amountValue = parseFloat (draft_amount (draft st))
           in if \<not> isFinite amountValue \<or> js_le amountValue (Fin 0)
              then st0\<lparr>error := Some (error_text InvalidAmount)\<rparr>
              else
                let isoDate = draft_date (draft st)
                in if isoDate = [] \<or> isNaN (Date_parse isoDate)
                   then st0\<lparr>error := Some (error_text InvalidDate)\<rparr>
                   else
                     let payload =
                           \<lparr>id_field = uuid,
                            description = trimmedDescription,
                            category = (if draft_category (draft st) = [] then ''Other''
                                        else draft_category (draft st)),
                            amount = Number_toFixed2 amountValue,
                            date = isoDate,
                            note_field = (if trim (draft_note (draft st)) = [] then None
                                          else Some (trim (draft_note (draft st)))),
                            createdAt = now\<rparr>
                     in st0\<lparr>expenses := payload # expenses st,
                            draft := \<lparr>draft_description = [],
                                      draft_category = draft_category (draft st),
                                      draft_amount = [],
                                      draft_date = isoDate,
                                      draft_note = []\<rparr>\<rparr>)"

text \<open>Rounding to two decimals, half up, as the specification words it.\<close>

definition rounds_half_up_to :: "rat \<Rightarrow> rat \<Rightarrow> bool" where
  "rounds_half_up_to x r \<longleftrightarrow>
     (\<exists>n :: int. r = of_int n / 100) \<and> \<bar>r - x\<bar> \<le> 1 / 200 \<and> (\<bar>r - x\<bar> = 1 / 200 \<longrightarrow> x < r)"

subsection \<open>The delete handler\<close>

text \<open>\<open>setExpenses((previous) => previous.filter((expense) => expense.id !== id))\<close>\<close>

definition handleDelete :: "string \<Rightarrow> expense list \<Rightarrow> expense list" where
  "handleDelete i previous = filter (\<lambda>e. id_field e \<noteq> i) previous"

subsection \<open>Example data\<close>

definition ex_food :: expense where
  "ex_food = \<lparr>id_field = ''a'', description = ''Green tea'', category = ''Food'',
     amount = Fin 10, date = ''2024-03-01'', note_field = None,
     createdAt = ''2024-03-01T09:00:00.000Z''\<rparr>"

definition ex_tech :: expense where
  "ex_tech = \<lparr>id_field = ''b'', description = ''Laptop stand'', category = ''Tech'',
     amount = Fin 20, date = ''2024-03-02'', note_field = Some ''For the TEA room'',
     createdAt = ''2024-03-02T10:00:00.000Z''\<rparr>"

definition ex_late :: expense where
  "ex_late = \<lparr>id_field = ''c'', description = ''Bus'', category = ''Transport'',
     amount = Fin 10, date = ''2024-03-01'', note_field = None,
     createdAt = ''2024-03-01T18:30:00.000Z''\<rparr>"

definition ex_draft :: draftExpense where
  "ex_draft = \<lparr>draft_description = '' Green tea '', draft_category = [],
     draft_amount = ''12.345'', draft_date = ''2024-03-01'', draft_note = ''  ''\<rparr>"

definition ex_state :: page_state where
  "ex_state = \<lparr>expenses = [ex_tech], draft = ex_draft, error = None\<rparr>"

text \<open>A \<open>Date.parse\<close> that knows one date.\<close>

definition ex_Date_parse :: "string \<Rightarrow> jsnum" where
  "ex_Date_parse s = (if s = ''2024-03-01'' then Fin 1709251200000 else NaN)"

text \<open>A stored entry with the five checked fields and nothing else, and a mixed array.\<close>

definition ex_bare :: json where
  "ex_bare = JObj [(''id'', JStr ''d''), (''description'', JStr ''Stamps''),
     (''category'', JStr ''Other''), (''amount'', JNum (Fin 3)), (''date'', JStr ''2024-02-27'')]"

definition ex_mixed :: "json list" where
  "ex_mixed = [JNum (Fin 3), expense_to_json ex_food,
     JObj [(''id'', JNum (Fin 1)), (''amount'', JStr ''5'')], ex_bare, JArr [],
     expense_to_json ex_tech]"

text \<open>
  A \<open>JSON.parse\<close> and a \<open>JSON.stringify\<close> that know the example arrays. The texts are
  named rather than written out: \<open>mixed\<close> is the text of the array \<open>ex_mixed\<close>,
  \<open>null first\<close> that of \<open>[null, e]\<close> with \<open>e\<close> the entry of \<open>ex_food\<close>, \<open>bare\<close> that of the
  array of \<open>ex_bare\<close>, \<open>saved\<close> what is written for \<open>ex_food\<close> and \<open>ex_tech\<close>, and \<open>object\<close>
  the text \<open>{}\<close>. Any other text does not parse.
\<close>

definition ex_parse :: "string \<Rightarrow> json option" where
  "ex_parse raw =
     (if raw = ''mixed'' then Some (JArr ex_mixed)
      else if raw = ''null first'' then Some (JArr [JNull, expense_to_json ex_food])
      else if raw = ''bare'' then Some (JArr [ex_bare])
      else if raw = ''saved'' then Some (JArr (map expense_to_json [ex_food, ex_tech]))
      else if raw = ''object'' then Some (JObj [])
      else None)"

definition ex_stringify :: "json \<Rightarrow> string" where
  "ex_stringify v =
     (if v = JArr (map expense_to_json [ex_food, ex_tech]) then ''saved'' else ''other'')"

definition ex_seven :: expense where
  "ex_seven = \<lparr>id_field = ''e'', description = ''Locker'', category = ''7'',
     amount = Fin 10, date = ''2024-03-01'', note_field = None,
     createdAt = ''2024-03-01T08:00:00.000Z''\<rparr>"

section \<open>Properties\<close>

lemma mset_insort_by: "mset (insort_by cmp x xs) = add_mset x (mset xs)"
  by (induction xs) auto

lemma mset_js_sort: "mset (js_sort cmp xs) = mset xs"
  by (induction xs) (auto simp: js_sort_def mset_insort_by)

lemma set_insort_by: "set (insort_by cmp x xs) = insert x (set xs)"
  by (induction xs) auto

lemma sorted_insort_by:
  assumes tot: "\<And>a b. cmp a b \<le> 0 \<or> cmp b a \<le> 0"
    and tr: "\<And>a b c. cmp a b \<le> 0 \<Longrightarrow> cmp b c \<le> 0 \<Longrightarrow> cmp a c \<le> 0"
  shows "sorted_wrt (\<lambda>a b. cmp a b \<le> 0) xs \<Longrightarrow> sorted_wrt (\<lambda>a b. cmp a b \<le> 0) (insort_by cmp x xs)"
proof (induction xs)
  case Nil
  then show ?case by simp
next
  case (Cons y ys)
  show ?case
  proof (cases "cmp x y \<le> 0")
    case True
    then show ?thesis using Cons.prems tr by auto
  next
    case False
    then have "cmp y x \<le> 0" using tot by blast
    then show ?thesis using False Cons by (auto simp: set_insort_by)
  qed
qed

lemma sorted_js_sort:
  assumes tot: "\<And>a b. cmp a b \<le> 0 \<or> cmp b a \<le> 0"
    and tr: "\<And>a b c. cmp a b \<le> 0 \<Longrightarrow> cmp b c \<le> 0 \<Longrightarrow> cmp a c \<le> 0"
  shows "sorted_wrt (\<lambda>a b. cmp a b \<le> 0) (js_sort cmp xs)"
proof (induction xs)
  case Nil
  then show ?case by (simp add: js_sort_def)
next
  case (Cons x xs)
  have "js_sort cmp (x # xs) = insort_by cmp x (js_sort cmp xs)" by (simp add: js_sort_def)
  then show ?case using sorted_insort_by [of cmp, OF tot tr Cons] by simp
qed

lemma filter_insort_by:
  assumes "\<And>y. P x \<Longrightarrow> P y \<Longrightarrow> cmp x y \<le> 0"
  shows "filter P (insort_by cmp x xs) = (if P x then x # filter P xs else filter P xs)"
  using assms by (induction xs) auto

lemma filter_js_sort:
  assumes "\<And>x y. P x \<Longrightarrow> P y \<Longrightarrow> cmp x y \<le> 0"
  shows "filter P (js_sort cmp xs) = filter P xs"
proof (induction xs)
  case Nil
  then show ?case by (simp add: js_sort_def)
next
  case (Cons x xs)
  have "js_sort cmp (x # xs) = insort_by cmp x (js_sort cmp xs)" by (simp add: js_sort_def)
  then show ?case using filter_insort_by [of P x cmp "js_sort cmp xs"] assms Cons by auto
qed

lemma consistent_code_unit_compare: "consistent_compare code_unit_compare"
  unfolding consistent_compare_def code_unit_compare_def by auto

lemma startsWith_iff: "startsWith s p \<longleftrightarrow> (\<exists>a. s = p @ a)"
  by (induction s p rule: startsWith.induct) auto

lemma includes_str_iff: "includes_str hay needle \<longleftrightarrow> (\<exists>b a. hay = b @ needle @ a)"
proof (induction hay)
  case Nil
  then show ?case by auto
next
  case (Cons c cs)
  show ?case
  proof
    assume "includes_str (c # cs) needle"
    then consider "startsWith (c # cs) needle" | "includes_str cs needle" by auto
    then show "\<exists>b a. c # cs = b @ needle @ a"
    proof cases
      case 1
      then obtain a where "c # cs = needle @ a" by (auto simp: startsWith_iff)
      then have "c # cs = [] @ needle @ a" by simp
      then show ?thesis by blast
    next
      case 2
      then obtain b a where "cs = b @ needle @ a" using Cons by blast
      then have "c # cs = (c # b) @ needle @ a" by simp
      then show ?thesis by blast
    qed
  next
    assume "\<exists>b a. c # cs = b @ needle @ a"
    then obtain b a where ba: "c # cs = b @ needle @ a" by blast
    show "includes_str (c # cs) needle"
    proof (cases b)
      case Nil
      then have "startsWith (c # cs) needle" using ba by (auto simp: startsWith_iff)
      then show ?thesis by simp
    next
      case (Cons b0 bs)
      then have "cs = bs @ needle @ a" using ba by simp
      then have "includes_str cs needle" using Cons.IH by blast
      then show ?thesis by simp
    qed
  qed
qed

lemma same_letter_map: "list_all2 same_letter mid term \<longleftrightarrow> map lower_char mid = map lower_char term"
proof -
  have "list_all2 same_letter mid term
        \<longleftrightarrow> list_all2 (=) (map lower_char mid) (map lower_char term)"
    unfolding same_letter_def by (simp add: list.rel_map)
  then show ?thesis by (simp add: list.rel_eq)
qed

lemma includes_lower_iff:
  "includes_str (toLowerCase text) (toLowerCase term) \<longleftrightarrow> contains_ignoring_case text term"
proof
  assume "includes_str (toLowerCase text) (toLowerCase term)"
  then obtain b a where "map lower_char text = b @ map lower_char term @ a"
    by (auto simp: includes_str_iff toLowerCase_def)
  then have "\<exists>us vs. text = us @ vs \<and> b = map lower_char us
                \<and> map lower_char term @ a = map lower_char vs"
    by (simp add: map_eq_append_conv)
  then obtain before rest where t: "text = before @ rest"
    and r: "map lower_char term @ a = map lower_char rest"
    by blast
  from r have "\<exists>us vs. rest = us @ vs \<and> map lower_char term = map lower_char us
                \<and> a = map lower_char vs"
    by (simp add: append_eq_map_conv)
  then obtain mid after where "rest = mid @ after" and "map lower_char mid = map lower_char term"
    by metis
  then show "contains_ignoring_case text term"
    unfolding contains_ignoring_case_def same_letter_map using t by blast
next
  assume "contains_ignoring_case text term"
  then obtain before mid after where "text = before @ mid @ after"
    and "map lower_char mid = map lower_char term"
    unfolding contains_ignoring_case_def same_letter_map by blast
  then have "toLowerCase text = map lower_char before @ toLowerCase term @ map lower_char after"
    by (simp add: toLowerCase_def)
  then show "includes_str (toLowerCase text) (toLowerCase term)"
    unfolding includes_str_iff by blast
qed

lemma all_dropWhile_iff: "(\<forall>x \<in> set (dropWhile P s). P x) \<longleftrightarrow> (\<forall>x \<in> set s. P x)"
proof
  assume a: "\<forall>x \<in> set (dropWhile P s). P x"
  have "dropWhile P s = []"
  proof (rule ccontr)
    assume n: "dropWhile P s \<noteq> []"
    then have "\<not> P (hd (dropWhile P s))" by (rule hd_dropWhile)
    moreover have "hd (dropWhile P s) \<in> set (dropWhile P s)" using n by simp
    ultimately show False using a by blast
  qed
  then show "\<forall>x \<in> set s. P x" by simp
next
  assume "\<forall>x \<in> set s. P x"
  then show "\<forall>x \<in> set (dropWhile P s). P x" by (meson set_dropWhileD)
qed

lemma trim_empty_iff: "trim s = [] \<longleftrightarrow> (\<forall>c \<in> set s. is_space c)"
  by (simp add: trim_def all_dropWhile_iff)

lemma search_match_iff:
  "search_match searchTerm e \<longleftrightarrow>
     contains_ignoring_case (description e) (trim searchTerm) \<or>
     (\<exists>n. note_field e = Some n \<and> contains_ignoring_case n (trim searchTerm))"
  by (auto simp: search_match_def Let_def includes_lower_iff split: option.splits)

text \<open>
  C8. With a search term that is not empty after trimming, the search filter keeps exactly
  the records whose description, or whose note where there is one, contains the trimmed
  term up to case; a record without a note matches on its description only. With a term
  that is empty or white space only, every record is kept. The sort that follows keeps the
  records the filter kept.
\<close>

theorem bySearch_case_insensitive:
  "(trim searchTerm \<noteq> [] \<longrightarrow>
      bySearch month categoryFilter searchTerm xs =
        filter (\<lambda>e. contains_ignoring_case (description e) (trim searchTerm) \<or>
                    (\<exists>n. note_field e = Some n \<and> contains_ignoring_case n (trim searchTerm)))
          (byCategory month categoryFilter xs))
   \<and> (\<forall>e. note_field e = None \<longrightarrow>
         search_match searchTerm e = contains_ignoring_case (description e) (trim searchTerm))
   \<and> ((\<forall>c \<in> set searchTerm. is_space c) \<longrightarrow>
         bySearch month categoryFilter searchTerm xs =
           byCategory month categoryFilter xs)
   \<and> mset (filteredExpenses lc month categoryFilter searchTerm xs) =
       mset (bySearch month categoryFilter searchTerm xs)"
proof -
  have "search_match searchTerm = (\<lambda>e. contains_ignoring_case (description e) (trim searchTerm) \<or>
          (\<exists>n. note_field e = Some n \<and> contains_ignoring_case n (trim searchTerm)))"
    by (rule ext) (rule search_match_iff)
  then have a: "trim searchTerm \<noteq> [] \<longrightarrow>
      bySearch month categoryFilter searchTerm xs =
        filter (\<lambda>e. contains_ignoring_case (description e) (trim searchTerm) \<or>
                    (\<exists>n. note_field e = Some n \<and> contains_ignoring_case n (trim searchTerm)))
          (byCategory month categoryFilter xs)"
    by (simp add: bySearch_def)
  have b: "\<forall>e. note_field e = None \<longrightarrow>
         search_match searchTerm e = contains_ignoring_case (description e) (trim searchTerm)"
    by (simp add: search_match_iff)
  have c: "(\<forall>c \<in> set searchTerm. is_space c) \<longrightarrow>
         bySearch month categoryFilter searchTerm xs =
           byCategory month categoryFilter xs"
    by (simp add: bySearch_def trim_empty_iff)
  have d: "mset (filteredExpenses lc month categoryFilter searchTerm xs) =
       mset (bySearch month categoryFilter searchTerm xs)"
    by (simp add: filteredExpenses_def mset_js_sort)
  from a b c d show ?thesis by blast
qed

theorem bySearch_case_insensitive_witness:
  "trim '' TEA '' \<noteq> []
   \<and> bySearch ''2024-03'' ''all'' '' TEA '' [ex_food, ex_tech, ex_late] =
       filter (\<lambda>e. contains_ignoring_case (description e) (trim '' TEA '') \<or>
                   (\<exists>n. note_field e = Some n \<and> contains_ignoring_case n (trim '' TEA '')))
         (byCategory ''2024-03'' ''all'' [ex_food, ex_tech, ex_late])
   \<and> bySearch ''2024-03'' ''all'' '' TEA '' [ex_food, ex_tech, ex_late] = [ex_food, ex_tech]
   \<and> note_field ex_late = None
   \<and> search_match '' TEA '' ex_late = contains_ignoring_case (description ex_late) (trim '' TEA '')
   \<and> trim ''  '' = []
   \<and> bySearch ''2024-03'' ''all'' ''  '' [ex_food, ex_tech, ex_late] =
       byCategory ''2024-03'' ''all'' [ex_food, ex_tech, ex_late]"
proof -
  have a: "trim '' TEA '' \<noteq> []" by code_simp
  have b: "bySearch ''2024-03'' ''all'' '' TEA '' [ex_food, ex_tech, ex_late] = [ex_food, ex_tech]"
    by code_simp
  have c: "note_field ex_late = None" by (simp add: ex_late_def)
  have d: "\<forall>c \<in> set ''  ''. is_space c" by (simp add: is_space_def)
  have e: "trim ''  '' = []" by code_simp
  show ?thesis
    using a b c d e
      bySearch_case_insensitive [of "'' TEA ''" "''2024-03''" "''all''"
        "[ex_food, ex_tech, ex_late]" code_unit_compare]
      bySearch_case_insensitive [of "''  ''" "''2024-03''" "''all''"
        "[ex_food, ex_tech, ex_late]" code_unit_compare]
    by blast
qed

lemma lc_refl: "consistent_compare lc \<Longrightarrow> lc x x = 0"
  by (simp add: consistent_compare_def)

lemma lc_neq: "consistent_compare lc \<Longrightarrow> x \<noteq> y \<Longrightarrow> lc x y \<noteq> 0"
  by (simp add: consistent_compare_def)

lemma lc_flip: "consistent_compare lc \<Longrightarrow> lc x y < 0 \<longleftrightarrow> 0 < lc y x"
  by (simp add: consistent_compare_def)

lemma lc_less_trans: "consistent_compare lc \<Longrightarrow> lc x y < 0 \<Longrightarrow> lc y z < 0 \<Longrightarrow> lc x z < 0"
  unfolding consistent_compare_def by blast


lemma lc_total: "consistent_compare lc \<Longrightarrow> lc x y \<le> 0 \<or> lc y x \<le> 0"
  using lc_flip [of lc x y] by linarith

lemma lc_le_trans:
  assumes c: "consistent_compare lc" and xy: "lc x y \<le> 0" and yz: "lc y z \<le> 0"
  shows "lc x z \<le> 0"
proof (cases "x = y \<or> y = z")
  case True
  then show ?thesis using xy yz by auto
next
  case False
  then have "lc x y \<noteq> 0" "lc y z \<noteq> 0"
    using lc_neq [OF c] by simp_all
  then have "lc x y < 0" "lc y z < 0"
    using xy yz by linarith+
  then have "lc x z < 0" by (rule lc_less_trans [OF c])
  then show ?thesis by simp
qed

lemma expense_cmp_le_iff:
  assumes c: "consistent_compare lc"
  shows "expense_cmp lc a b \<le> 0 \<longleftrightarrow>
         lc (date b) (date a) < 0 \<or> (date a = date b \<and> lc (createdAt b) (createdAt a) \<le> 0)"
proof (cases "date a = date b")
  case True
  then have "lc (date b) (date a) = 0" using lc_refl [OF c] by simp
  then show ?thesis using True by (simp add: expense_cmp_def)
next
  case False
  then have "lc (date b) (date a) \<noteq> 0" using lc_neq [OF c, of "date b" "date a"] by simp
  then show ?thesis using False by (simp add: expense_cmp_def less_le)
qed

lemma expense_cmp_total:
  assumes "consistent_compare lc"
  shows "expense_cmp lc a b \<le> 0 \<or> expense_cmp lc b a \<le> 0"
  using lc_total [OF assms, of "createdAt b" "createdAt a"] lc_total [OF assms, of "date b" "date a"]
  unfolding expense_cmp_def by auto

lemma expense_cmp_trans:
  assumes c: "consistent_compare lc" and ab: "expense_cmp lc a b \<le> 0" and bd: "expense_cmp lc b d \<le> 0"
  shows "expense_cmp lc a d \<le> 0"
proof -
  from ab consider "lc (date b) (date a) < 0"
    | "date a = date b" "lc (createdAt b) (createdAt a) \<le> 0"
    unfolding expense_cmp_le_iff [OF c] by blast
  then show ?thesis
  proof cases
    case 1
    from bd consider "lc (date d) (date b) < 0" | "date b = date d"
      unfolding expense_cmp_le_iff [OF c] by blast
    then have "lc (date d) (date a) < 0"
      using 1 lc_less_trans [OF c, of "date d" "date b" "date a"] by cases auto
    then show ?thesis unfolding expense_cmp_le_iff [OF c] by blast
  next
    case 2
    from bd consider "lc (date d) (date b) < 0"
      | "date b = date d" "lc (createdAt d) (createdAt b) \<le> 0"
      unfolding expense_cmp_le_iff [OF c] by blast
    then show ?thesis
    proof cases
      case 1
      then show ?thesis using 2 unfolding expense_cmp_le_iff [OF c] by simp
    next
      case 2
      have "lc (createdAt d) (createdAt a) \<le> 0"
        using lc_le_trans [OF c 2(2) \<open>lc (createdAt b) (createdAt a) \<le> 0\<close>] .
      then show ?thesis using 2 \<open>date a = date b\<close> unfolding expense_cmp_le_iff [OF c] by simp
    qed
  qed
qed

text \<open>
  C3. With a consistent string comparison, the filtered timeline is in descending order of
  date, and of creation time among equal dates; it holds the records the filters kept;
  records equal in both keys keep their order; and of two records of one date the one
  created later comes first.
\<close>

theorem filteredExpenses_sorted:
  assumes c: "consistent_compare lc"
  shows "sorted_wrt (\<lambda>a b. lc (date b) (date a) < 0 \<or>
                         (date a = date b \<and> lc (createdAt b) (createdAt a) \<le> 0))
           (filteredExpenses lc month categoryFilter searchTerm xs)
    \<and> mset (filteredExpenses lc month categoryFilter searchTerm xs) =
        mset (bySearch month categoryFilter searchTerm xs)
    \<and> (\<forall>d t. filter (\<lambda>e. date e = d \<and> createdAt e = t)
                 (filteredExpenses lc month categoryFilter searchTerm xs) =
               filter (\<lambda>e. date e = d \<and> createdAt e = t)
                 (bySearch month categoryFilter searchTerm xs))
    \<and> (\<forall>i j. i < length (filteredExpenses lc month categoryFilter searchTerm xs) \<and>
              j < length (filteredExpenses lc month categoryFilter searchTerm xs) \<and>
              date (filteredExpenses lc month categoryFilter searchTerm xs ! i) =
                date (filteredExpenses lc month categoryFilter searchTerm xs ! j) \<and>
              lc (createdAt (filteredExpenses lc month categoryFilter searchTerm xs ! j))
                 (createdAt (filteredExpenses lc month categoryFilter searchTerm xs ! i)) < 0
              \<longrightarrow> i < j)"
proof -
  define r where "r = filteredExpenses lc month categoryFilter searchTerm xs"
  define ys where "ys = bySearch month categoryFilter searchTerm xs"
  have r: "r = js_sort (expense_cmp lc) ys" by (simp add: r_def ys_def filteredExpenses_def)
  have "sorted_wrt (\<lambda>a b. expense_cmp lc a b \<le> 0) r"
    unfolding r using expense_cmp_total [OF c] expense_cmp_trans [OF c] by (rule sorted_js_sort)
  then have s: "sorted_wrt (\<lambda>a b. lc (date b) (date a) < 0 \<or>
                         (date a = date b \<and> lc (createdAt b) (createdAt a) \<le> 0)) r"
    by (simp add: expense_cmp_le_iff [OF c])
  have m: "mset r = mset ys" by (simp add: r mset_js_sort)
  have st: "filter (\<lambda>e. date e = d \<and> createdAt e = t) r = filter (\<lambda>e. date e = d \<and> createdAt e = t) ys"
    for d t
    unfolding r
  proof (rule filter_js_sort)
    fix x y :: expense
    assume "date x = d \<and> createdAt x = t" "date y = d \<and> createdAt y = t"
    then show "expense_cmp lc x y \<le> 0" using lc_refl [OF c, of t] by (simp add: expense_cmp_def)
  qed
  have o: "i < j" if h: "i < length r" "j < length r" "date (r ! i) = date (r ! j)"
      "lc (createdAt (r ! j)) (createdAt (r ! i)) < 0" for i j
  proof (rule ccontr)
    assume "\<not> i < j"
    then consider "i = j" | "j < i" by linarith
    then show False
    proof cases
      case 1
      then show ?thesis using h(4) lc_refl [OF c, of "createdAt (r ! i)"] by simp
    next
      case 2
      then have "lc (date (r ! i)) (date (r ! j)) < 0 \<or>
         (date (r ! j) = date (r ! i) \<and> lc (createdAt (r ! i)) (createdAt (r ! j)) \<le> 0)"
        using s h(1) by (simp add: sorted_wrt_iff_nth_less)
      then have "lc (createdAt (r ! i)) (createdAt (r ! j)) \<le> 0"
        using h(3) lc_refl [OF c, of "date (r ! j)"] by auto
      then show ?thesis
        using h(4) lc_flip [OF c, of "createdAt (r ! j)" "createdAt (r ! i)"] by simp
    qed
  qed
  from s m st o show ?thesis unfolding r_def ys_def by blast
qed

theorem filteredExpenses_sorted_witness:
  "consistent_compare code_unit_compare
   \<and> filteredExpenses code_unit_compare ''2024-03'' ''all'' [] [ex_food, ex_tech, ex_late]
       = [ex_tech, ex_late, ex_food]
   \<and> date ex_late = date ex_food
   \<and> code_unit_compare (createdAt ex_food) (createdAt ex_late) < 0
   \<and> sorted_wrt (\<lambda>a b. code_unit_compare (date b) (date a) < 0 \<or>
         (date a = date b \<and> code_unit_compare (createdAt b) (createdAt a) \<le> 0))
         [ex_tech, ex_late, ex_food]"
proof -
  have a: "filteredExpenses code_unit_compare ''2024-03'' ''all'' [] [ex_food, ex_tech, ex_late]
           = [ex_tech, ex_late, ex_food]"
    by code_simp
  have b: "date ex_late = date ex_food" by (simp add: ex_late_def ex_food_def)
  have c: "code_unit_compare (createdAt ex_food) (createdAt ex_late) < 0" by code_simp
  show ?thesis
    using a b c consistent_code_unit_compare
      filteredExpenses_sorted [OF consistent_code_unit_compare, of "''2024-03''" "''all''" "[]"
        "[ex_food, ex_tech, ex_late]"]
    by simp
qed

text \<open>
  C9. Deleting by id removes every record carrying that id and keeps all the others in
  their order; when no record carries the id the store is returned as it is; and deleting
  the same id a second time changes nothing.
\<close>

theorem handleDelete_idempotent:
  "i \<notin> id_field ` set (handleDelete i xs)
   \<and> handleDelete i xs = filter (\<lambda>e. id_field e \<noteq> i) xs
   \<and> (i \<notin> id_field ` set xs \<longrightarrow> handleDelete i xs = xs)
   \<and> handleDelete i (handleDelete i xs) = handleDelete i xs"
  by (auto simp: handleDelete_def filter_id_conv)

theorem handleDelete_idempotent_witness:
  "''z'' \<notin> id_field ` set [ex_food, ex_tech]
   \<and> handleDelete ''z'' [ex_food, ex_tech] = [ex_food, ex_tech]
   \<and> handleDelete ''a'' [ex_food, ex_tech] = [ex_tech]
   \<and> handleDelete ''a'' (handleDelete ''a'' [ex_food, ex_tech]) = [ex_tech]"
  using handleDelete_idempotent [of "''z''" "[ex_food, ex_tech]"]
    handleDelete_idempotent [of "''a''" "[ex_food, ex_tech]"]
  by (simp add: handleDelete_def ex_food_def ex_tech_def)

lemma handleSubmit_cases:
  "handleSubmit P u n st =
     (if trim (draft_description (draft st)) = []
      then st\<lparr>error := Some (error_text EmptyDescription)\<rparr>
      else if \<not> isFinite (parseFloat (draft_amount (draft st))) \<or>
              js_le (parseFloat (draft_amount (draft st))) (Fin 0)
      then st\<lparr>error := Some (error_text InvalidAmount)\<rparr>
      else if draft_date (draft st) = [] \<or> isNaN (P (draft_date (draft st)))
      then st\<lparr>error := Some (error_text InvalidDate)\<rparr>
      else st\<lparr>error := None,
              expenses :=
                \<lparr>id_field = u,
                 description = trim (draft_description (draft st)),
                 category = (if draft_category (draft st) = [] then ''Other''
                             else draft_category (draft st)),
                 amount = Number_toFixed2 (parseFloat (draft_amount (draft st))),
                 date = draft_date (draft st),
                 note_field = (if trim (draft_note (draft st)) = [] then None
                               else Some (trim (draft_note (draft st)))),
                 createdAt = n\<rparr> # expenses st,
              draft := \<lparr>draft_description = [],
                        draft_category = draft_category (draft st),
                        draft_amount = [],
                        draft_date = draft_date (draft st),
                        draft_note = []\<rparr>\<rparr>)"
  by (simp add: handleSubmit_def Let_def)

lemma parseFloat_zero: "parseFloat ''0'' = Fin 0"
  by code_simp

lemma parseFloat_minus_five: "parseFloat ''-5'' = Fin (- 5)"
  by code_simp

lemma parseFloat_abc: "parseFloat ''abc'' = NaN"
  by code_simp

text \<open>
  C2. The submit handler checks the description, then the amount, then the date, and
  stops at the first check that fails, with that check's message: an empty trimmed
  description; otherwise an amount that is not a finite number or is not above zero, as
  are the texts \<open>0\<close>, \<open>-5\<close> and \<open>abc\<close>; otherwise a date that is empty or does not parse.
  Whenever a message is set, the expenses and the draft are as they were.
\<close>

theorem handleSubmit_first_failure:
  "(trim (draft_description (draft st)) = [] \<longrightarrow>
      handleSubmit P u n st = st\<lparr>error := Some (error_text EmptyDescription)\<rparr>)
   \<and> (trim (draft_description (draft st)) \<noteq> [] \<and>
        (\<not> isFinite (parseFloat (draft_amount (draft st))) \<or>
         js_le (parseFloat (draft_amount (draft st))) (Fin 0)) \<longrightarrow>
      handleSubmit P u n st = st\<lparr>error := Some (error_text InvalidAmount)\<rparr>)
   \<and> (trim (draft_description (draft st)) \<noteq> [] \<and>
        isFinite (parseFloat (draft_amount (draft st))) \<and>
        \<not> js_le (parseFloat (draft_amount (draft st))) (Fin 0) \<and>
        (draft_date (draft st) = [] \<or> isNaN (P (draft_date (draft st)))) \<longrightarrow>
      handleSubmit P u n st = st\<lparr>error := Some (error_text InvalidDate)\<rparr>)
   \<and> (error (handleSubmit P u n st) \<noteq> None \<longrightarrow>
        expenses (handleSubmit P u n st) = expenses st \<and>
        draft (handleSubmit P u n st) = draft st)
   \<and> (trim (draft_description (draft st)) \<noteq> [] \<and> draft_amount (draft st) \<in> {''0'', ''-5'', ''abc''} \<longrightarrow>
        error (handleSubmit P u n st) = Some (error_text InvalidAmount))"
proof -
  have bad: "\<not> isFinite (parseFloat a) \<or> js_le (parseFloat a) (Fin 0)"
    if "a \<in> {''0'', ''-5'', ''abc''}" for a
    using that parseFloat_zero parseFloat_minus_five parseFloat_abc by auto
  have 1: "trim (draft_description (draft st)) = [] \<longrightarrow>
      handleSubmit P u n st = st\<lparr>error := Some (error_text EmptyDescription)\<rparr>"
    by (simp add: handleSubmit_cases)
  have 2: "trim (draft_description (draft st)) \<noteq> [] \<and>
        (\<not> isFinite (parseFloat (draft_amount (draft st))) \<or>
         js_le (parseFloat (draft_amount (draft st))) (Fin 0)) \<longrightarrow>
      handleSubmit P u n st = st\<lparr>error := Some (error_text InvalidAmount)\<rparr>"
    by (simp add: handleSubmit_cases)
  have 3: "trim (draft_description (draft st)) \<noteq> [] \<and>
        isFinite (parseFloat (draft_amount (draft st))) \<and>
        \<not> js_le (parseFloat (draft_amount (draft st))) (Fin 0) \<and>
        (draft_date (draft st) = [] \<or> isNaN (P (draft_date (draft st)))) \<longrightarrow>
      handleSubmit P u n st = st\<lparr>error := Some (error_text InvalidDate)\<rparr>"
    by (simp add: handleSubmit_cases)
  have 4: "error (handleSubmit P u n st) \<noteq> None \<longrightarrow>
        expenses (handleSubmit P u n st) = expenses st \<and>
        draft (handleSubmit P u n st) = draft st"
    by (simp add: handleSubmit_cases)
  have 5: "trim (draft_description (draft st)) \<noteq> [] \<and> draft_amount (draft st) \<in> {''0'', ''-5'', ''abc''} \<longrightarrow>
        error (handleSubmit P u n st) = Some (error_text InvalidAmount)"
    using bad [of "draft_amount (draft st)"] by (simp add: handleSubmit_cases)
  from 1 2 3 4 5 show ?thesis by blast
qed

theorem handleSubmit_first_failure_witness:
  "trim (draft_description (draft (ex_state\<lparr>draft := ex_draft\<lparr>draft_description := ''  ''\<rparr>\<rparr>))) = []
   \<and> handleSubmit ex_Date_parse ''u'' ''t'' (ex_state\<lparr>draft := ex_draft\<lparr>draft_description := ''  ''\<rparr>\<rparr>)
       = ex_state\<lparr>draft := ex_draft\<lparr>draft_description := ''  ''\<rparr>,
                   error := Some (error_text EmptyDescription)\<rparr>
   \<and> trim (draft_description (draft (ex_state\<lparr>draft := ex_draft\<lparr>draft_amount := ''-5''\<rparr>\<rparr>))) \<noteq> []
   \<and> js_le (parseFloat (draft_amount (draft (ex_state\<lparr>draft := ex_draft\<lparr>draft_amount := ''-5''\<rparr>\<rparr>)))) (Fin 0)
   \<and> handleSubmit ex_Date_parse ''u'' ''t'' (ex_state\<lparr>draft := ex_draft\<lparr>draft_amount := ''-5''\<rparr>\<rparr>)
       = ex_state\<lparr>draft := ex_draft\<lparr>draft_amount := ''-5''\<rparr>,
                   error := Some (error_text InvalidAmount)\<rparr>
   \<and> isNaN (ex_Date_parse (draft_date (draft (ex_state\<lparr>draft := ex_draft\<lparr>draft_date := ''soon''\<rparr>\<rparr>))))
   \<and> handleSubmit ex_Date_parse ''u'' ''t'' (ex_state\<lparr>draft := ex_draft\<lparr>draft_date := ''soon''\<rparr>\<rparr>)
       = ex_state\<lparr>draft := ex_draft\<lparr>draft_date := ''soon''\<rparr>,
                   error := Some (error_text InvalidDate)\<rparr>"
proof -
  have a: "trim (draft_description (draft (ex_state\<lparr>draft := ex_draft\<lparr>draft_description := ''  ''\<rparr>\<rparr>))) = []"
    by code_simp
  have b: "trim (draft_description (draft (ex_state\<lparr>draft := ex_draft\<lparr>draft_amount := ''-5''\<rparr>\<rparr>))) \<noteq> []"
    by code_simp
  have c: "js_le (parseFloat (draft_amount (draft (ex_state\<lparr>draft := ex_draft\<lparr>draft_amount := ''-5''\<rparr>\<rparr>)))) (Fin 0)"
    by (simp add: parseFloat_minus_five)
  have d: "trim (draft_description (draft (ex_state\<lparr>draft := ex_draft\<lparr>draft_date := ''soon''\<rparr>\<rparr>))) \<noteq> []"
    by code_simp
  have e: "isFinite (parseFloat (draft_amount (draft (ex_state\<lparr>draft := ex_draft\<lparr>draft_date := ''soon''\<rparr>\<rparr>))))
           \<and> \<not> js_le (parseFloat (draft_amount (draft (ex_state\<lparr>draft := ex_draft\<lparr>draft_date := ''soon''\<rparr>\<rparr>)))) (Fin 0)"
    by code_simp
  have f: "isNaN (ex_Date_parse (draft_date (draft (ex_state\<lparr>draft := ex_draft\<lparr>draft_date := ''soon''\<rparr>\<rparr>))))"
    by code_simp
  show ?thesis
    using a b c d e f
      handleSubmit_first_failure [of "ex_state\<lparr>draft := ex_draft\<lparr>draft_description := ''  ''\<rparr>\<rparr>"
        ex_Date_parse "''u''" "''t''"]
      handleSubmit_first_failure [of "ex_state\<lparr>draft := ex_draft\<lparr>draft_amount := ''-5''\<rparr>\<rparr>"
        ex_Date_parse "''u''" "''t''"]
      handleSubmit_first_failure [of "ex_state\<lparr>draft := ex_draft\<lparr>draft_date := ''soon''\<rparr>\<rparr>"
        ex_Date_parse "''u''" "''t''"]
    by simp
qed

lemma typeof_string_iff: "typeof v = ''string'' \<longleftrightarrow> (\<exists>s. v = Some (JStr s))"
proof (cases v)
  case None
  then show ?thesis by simp
next
  case (Some j)
  then show ?thesis by (cases j) simp_all
qed

lemma typeof_number_iff: "typeof v = ''number'' \<longleftrightarrow> (\<exists>n. v = Some (JNum n))"
proof (cases v)
  case None
  then show ?thesis by simp
next
  case (Some j)
  then show ?thesis by (cases j) simp_all
qed

lemma is_expense_null: "is_expense JNull = Inl TypeError"
  by (simp add: is_expense_def prop_has_type_def)

lemma and_then_Inr: "and_then (Inr a) (Inr b) = Inr (a \<and> b)"
  by (cases a) simp_all

lemma is_expense_object: "is_expense (JObj members) = Inr (well_formed (JObj members))"
  by (simp add: is_expense_def prop_has_type_def and_then_Inr well_formed_def
      typeof_string_iff typeof_number_iff)

lemma is_expense_not_null: "item \<noteq> JNull \<Longrightarrow> is_expense item = Inr (well_formed item)"
proof (cases item)
  case (JObj members)
  then show ?thesis by (simp add: is_expense_object)
qed (simp_all add: is_expense_def prop_has_type_def well_formed_def)

lemma js_filter_total:
  "(\<And>x. x \<in> set xs \<Longrightarrow> p x = Inr (q x)) \<Longrightarrow> js_filter p xs = Inr (filter q xs)"
  by (induction xs) simp_all

lemma js_filter_is_expense:
  "JNull \<notin> set items \<Longrightarrow> js_filter is_expense items = Inr (filter well_formed items)"
  by (rule js_filter_total) (metis is_expense_not_null)

lemma load_array:
  assumes "raw \<noteq> []" "parse raw = Some (JArr items)" "JNull \<notin> set items"
  shows "load parse lc (Some raw) =
           js_sort (\<lambda>a b. lc (date_of b) (date_of a)) (filter well_formed items)"
  using assms by (simp add: load_def load_effect_def load_body_def js_filter_is_expense)

lemma load_sorted:
  assumes c: "consistent_compare lc"
  shows "sorted_wrt (\<lambda>a b. lc (date_of b) (date_of a) \<le> 0)
           (js_sort (\<lambda>a b. lc (date_of b) (date_of a)) items)
    \<and> (\<forall>d. filter (\<lambda>i. date_of i = d) (js_sort (\<lambda>a b. lc (date_of b) (date_of a)) items) =
             filter (\<lambda>i. date_of i = d) items)"
proof -
  have s: "sorted_wrt (\<lambda>a b. lc (date_of b) (date_of a) \<le> 0)
           (js_sort (\<lambda>a b. lc (date_of b) (date_of a)) items)"
  proof (rule sorted_js_sort)
    show "lc (date_of b) (date_of a) \<le> 0 \<or> lc (date_of a) (date_of b) \<le> 0" for a b :: json
      using c by (rule lc_total)
    show "lc (date_of b) (date_of a) \<le> 0 \<Longrightarrow> lc (date_of d) (date_of b) \<le> 0
          \<Longrightarrow> lc (date_of d) (date_of a) \<le> 0" for a b d :: json
      using c by (rule lc_le_trans)
  qed
  have "filter (\<lambda>i. date_of i = d) (js_sort (\<lambda>a b. lc (date_of b) (date_of a)) items) =
        filter (\<lambda>i. date_of i = d) items" for d
  proof (rule filter_js_sort)
    fix x y :: json
    assume "date_of x = d" "date_of y = d"
    then show "lc (date_of y) (date_of x) \<le> 0" using lc_refl [OF c, of d] by simp
  qed
  then show ?thesis using s by blast
qed

text \<open>
  C1, as the code has it. The load effect never lets an exception out: whatever its body
  throws, the expenses stay as they were. From an absent or empty slot, from a text that
  does not parse, and from a parsed value that is not an array, the loaded store is empty.
  From an array without a \<open>null\<close> entry, the entries kept are exactly those whose \<open>id\<close>,
  \<open>description\<close>, \<open>category\<close> and \<open>date\<close> are strings and whose \<open>amount\<close> is a number,
  whatever their other fields; with a consistent string comparison they come in descending
  order of date, entries of one date in the order they had.
\<close>

theorem load_keeps_well_formed:
  "((\<exists>e. load_body parse lc slot = Inl e) \<longrightarrow> load_effect parse lc slot xs = xs)
   \<and> load parse lc None = []
   \<and> load parse lc (Some []) = []
   \<and> (parse raw = None \<longrightarrow> load parse lc (Some raw) = [])
   \<and> (parse raw = Some v \<and> (\<forall>items. v \<noteq> JArr items) \<longrightarrow> load parse lc (Some raw) = [])
   \<and> (raw \<noteq> [] \<and> parse raw = Some (JArr items) \<and> JNull \<notin> set items \<longrightarrow>
        mset (load parse lc (Some raw)) = mset (filter well_formed items)
        \<and> (consistent_compare lc \<longrightarrow>
             sorted_wrt (\<lambda>a b. lc (date_of b) (date_of a) \<le> 0) (load parse lc (Some raw))
             \<and> (\<forall>d. filter (\<lambda>i. date_of i = d) (load parse lc (Some raw)) =
                      filter (\<lambda>i. date_of i = d) (filter well_formed items))))"
proof -
  have 1: "(\<exists>e. load_body parse lc slot = Inl e) \<longrightarrow> load_effect parse lc slot xs = xs"
    by (auto simp: load_effect_def)
  have 2: "load parse lc None = []" "load parse lc (Some []) = []"
    by (simp_all add: load_def load_effect_def load_body_def)
  have 3: "parse raw = None \<longrightarrow> load parse lc (Some raw) = []"
    by (simp add: load_def load_effect_def load_body_def)
  have 4: "parse raw = Some v \<and> (\<forall>items. v \<noteq> JArr items) \<longrightarrow> load parse lc (Some raw) = []"
    by (cases v) (simp_all add: load_def load_effect_def load_body_def)
  have 5: "raw \<noteq> [] \<and> parse raw = Some (JArr items) \<and> JNull \<notin> set items \<longrightarrow>
        mset (load parse lc (Some raw)) = mset (filter well_formed items)
        \<and> (consistent_compare lc \<longrightarrow>
             sorted_wrt (\<lambda>a b. lc (date_of b) (date_of a) \<le> 0) (load parse lc (Some raw))
             \<and> (\<forall>d. filter (\<lambda>i. date_of i = d) (load parse lc (Some raw)) =
                      filter (\<lambda>i. date_of i = d) (filter well_formed items)))"
  proof
    assume a: "raw \<noteq> [] \<and> parse raw = Some (JArr items) \<and> JNull \<notin> set items"
    then have l: "load parse lc (Some raw) =
        js_sort (\<lambda>a b. lc (date_of b) (date_of a)) (filter well_formed items)"
      by (simp add: load_array)
    show "mset (load parse lc (Some raw)) = mset (filter well_formed items)
        \<and> (consistent_compare lc \<longrightarrow>
             sorted_wrt (\<lambda>a b. lc (date_of b) (date_of a) \<le> 0) (load parse lc (Some raw))
             \<and> (\<forall>d. filter (\<lambda>i. date_of i = d) (load parse lc (Some raw)) =
                      filter (\<lambda>i. date_of i = d) (filter well_formed items)))"
      unfolding l using load_sorted [of lc "filter well_formed items"]
      by (simp add: mset_js_sort)
  qed
  from 1 2 3 4 5 show ?thesis by blast
qed

theorem load_keeps_well_formed_witness:
  "''mixed'' \<noteq> [] \<and> ex_parse ''mixed'' = Some (JArr ex_mixed) \<and> \<not> JNull \<in> set ex_mixed
   \<and> consistent_compare code_unit_compare
   \<and> filter well_formed ex_mixed = [expense_to_json ex_food, ex_bare, expense_to_json ex_tech]
   \<and> load ex_parse code_unit_compare (Some ''mixed'')
       = [expense_to_json ex_tech, expense_to_json ex_food, ex_bare]
   \<and> mset (load ex_parse code_unit_compare (Some ''mixed''))
       = mset (filter well_formed ex_mixed)
   \<and> sorted_wrt (\<lambda>a b. code_unit_compare (date_of b) (date_of a) \<le> 0)
        (load ex_parse code_unit_compare (Some ''mixed''))
   \<and> ex_parse ''{'' = None \<and> load ex_parse code_unit_compare (Some ''{'') = []
   \<and> ex_parse ''object'' = Some (JObj []) \<and> load ex_parse code_unit_compare (Some ''object'') = []"
proof -
  have a: "ex_parse ''mixed'' = Some (JArr ex_mixed)" "ex_parse ''{'' = None"
    "ex_parse ''object'' = Some (JObj [])"
    by (simp_all add: ex_parse_def)
  have b: "JNull \<notin> set ex_mixed"
    by (simp add: ex_mixed_def ex_bare_def expense_to_json_def)
  have c: "js_filter is_expense ex_mixed
           = Inr [expense_to_json ex_food, ex_bare, expense_to_json ex_tech]"
    by code_simp
  have d: "filter well_formed ex_mixed = [expense_to_json ex_food, ex_bare, expense_to_json ex_tech]"
    using c js_filter_is_expense [OF b] by simp
  have e: "load ex_parse code_unit_compare (Some ''mixed'')
       = [expense_to_json ex_tech, expense_to_json ex_food, ex_bare]"
    by code_simp
  have f: "\<forall>items. JObj [] \<noteq> JArr items" by simp
  have g: "''mixed'' \<noteq> []" by simp
  have h: "mset (load ex_parse code_unit_compare (Some ''mixed'')) = mset (filter well_formed ex_mixed)
     \<and> sorted_wrt (\<lambda>a b. code_unit_compare (date_of b) (date_of a) \<le> 0)
        (load ex_parse code_unit_compare (Some ''mixed''))"
    using a(1) b g consistent_code_unit_compare
      load_keeps_well_formed [of ex_parse code_unit_compare None "[]" "''mixed''" "JArr ex_mixed" ex_mixed]
    by blast
  have i: "load ex_parse code_unit_compare (Some ''{'') = []"
    using a(2) load_keeps_well_formed [of ex_parse code_unit_compare None "[]" "''{''" "JNull" "[]"]
    by blast
  have j: "load ex_parse code_unit_compare (Some ''object'') = []"
    using a(3) f
      load_keeps_well_formed [of ex_parse code_unit_compare None "[]" "''object''" "JObj []" "[]"]
    by blast
  from a b d e g h i j consistent_code_unit_compare show ?thesis by blast
qed

text \<open>
  The claim C1 as it is worded fails twice. An array with a \<open>null\<close> entry loads as the empty
  store, although it holds a well-formed entry; and an entry without \<open>createdAt\<close> is kept.
\<close>

theorem load_mixed_array_counterexample:
  "ex_parse ''null first'' = Some (JArr [JNull, expense_to_json ex_food])
   \<and> well_formed (expense_to_json ex_food)
   \<and> load ex_parse code_unit_compare (Some ''null first'') = []
   \<and> ex_parse ''bare'' = Some (JArr [ex_bare])
   \<and> get_prop ex_bare ''createdAt'' = Inr None
   \<and> load ex_parse code_unit_compare (Some ''bare'') = [ex_bare]"
proof -
  have a: "ex_parse ''null first'' = Some (JArr [JNull, expense_to_json ex_food])"
    "ex_parse ''bare'' = Some (JArr [ex_bare])"
    by (simp_all add: ex_parse_def)
  have b: "is_expense (expense_to_json ex_food) = Inr True" by code_simp
  have c: "well_formed (expense_to_json ex_food)"
    using b is_expense_not_null [of "expense_to_json ex_food"] by (simp add: expense_to_json_def)
  have d: "load ex_parse code_unit_compare (Some ''null first'') = []" by code_simp
  have e: "get_prop ex_bare ''createdAt'' = Inr None" by code_simp
  have f: "load ex_parse code_unit_compare (Some ''bare'') = [ex_bare]" by code_simp
  from a c d e f show ?thesis by simp
qed

lemma insort_by_map:
  assumes "\<And>a b. cmp' (f a) (f b) = cmp a b"
  shows "insort_by cmp' (f x) (map f xs) = map f (insort_by cmp x xs)"
  by (induction xs) (simp_all add: assms)

lemma js_sort_map:
  assumes "\<And>a b. cmp' (f a) (f b) = cmp a b"
  shows "js_sort cmp' (map f xs) = map f (js_sort cmp xs)"
proof (induction xs)
  case Nil
  then show ?case by (simp add: js_sort_def)
next
  case (Cons x xs)
  have "js_sort cmp' (map f (x # xs)) = insort_by cmp' (f x) (js_sort cmp' (map f xs))"
    by (simp add: js_sort_def)
  also have "\<dots> = insort_by cmp' (f x) (map f (js_sort cmp xs))"
    by (simp add: Cons)
  also have "\<dots> = map f (insort_by cmp x (js_sort cmp xs))"
    using assms by (rule insort_by_map)
  finally show ?case by (simp add: js_sort_def)
qed

lemma date_of_expense_to_json: "date_of (expense_to_json e) = date e"
  by (cases "note_field e") (simp_all add: date_of_def expense_to_json_def)

lemma well_formed_expense_to_json: "well_formed (expense_to_json e) \<longleftrightarrow> isFinite (amount e)"
  by (cases "note_field e")
    (simp_all add: well_formed_def expense_to_json_def number_to_json_def)

lemma expense_to_json_inject:
  assumes "isFinite (amount e)" "expense_to_json e = expense_to_json e'"
  shows "e = e'"
proof -
  have am: "amount e = amount e'"
    using assms by (cases "amount e'") (auto simp: expense_to_json_def number_to_json_def)
  have "id_field e = id_field e' \<and> description e = description e' \<and> category e = category e'
        \<and> date e = date e' \<and> note_field e = note_field e' \<and> createdAt e = createdAt e'"
    using assms(2)
    by (cases "note_field e"; cases "note_field e'") (simp_all add: expense_to_json_def)
  then show ?thesis using am by simp
qed

text \<open>
  C6. Let every amount be finite, and let \<open>JSON.parse\<close> read back the value whose text
  \<open>JSON.stringify\<close> wrote, that text not being empty. Then the store loaded from the slot
  that the persist effect wrote consists of the saved records, each as often as it was
  saved; a saved record is told from every other record by what is written for it, so no
  field is altered; and with a consistent string comparison the loaded store is the saved
  one in the stable order of the sort by date.
\<close>

theorem save_load_roundtrip:
  assumes "\<forall>e \<in> set xs. isFinite (amount e)"
    and "parse (stringify (JArr (map expense_to_json xs))) = Some (JArr (map expense_to_json xs))"
    and "stringify (JArr (map expense_to_json xs)) \<noteq> []"
  shows "mset (load parse lc (save stringify xs)) = image_mset expense_to_json (mset xs)
    \<and> (\<forall>e \<in> set xs. \<forall>e'. expense_to_json e = expense_to_json e' \<longrightarrow> e = e')
    \<and> (consistent_compare lc \<longrightarrow>
         load parse lc (save stringify xs) =
           map expense_to_json (js_sort (\<lambda>a b. lc (date b) (date a)) xs)
         \<and> sorted_wrt (\<lambda>a b. lc (date b) (date a) \<le> 0) (js_sort (\<lambda>a b. lc (date b) (date a)) xs))"
proof -
  have n: "JNull \<notin> set (map expense_to_json xs)"
    by (auto simp: expense_to_json_def)
  have w: "filter well_formed (map expense_to_json xs) = map expense_to_json xs"
    using assms(1) by (simp add: filter_id_conv well_formed_expense_to_json)
  have "load parse lc (save stringify xs) =
          js_sort (\<lambda>a b. lc (date_of b) (date_of a)) (map expense_to_json xs)"
    unfolding save_def
    using load_array [where raw = "stringify (JArr (map expense_to_json xs))" and parse = parse
        and items = "map expense_to_json xs" and lc = lc] assms(2) assms(3) n w
    by simp
  also have "\<dots> = map expense_to_json (js_sort (\<lambda>a b. lc (date b) (date a)) xs)"
    by (rule js_sort_map) (simp add: date_of_expense_to_json)
  finally have l: "load parse lc (save stringify xs) =
           map expense_to_json (js_sort (\<lambda>a b. lc (date b) (date a)) xs)" .
  have 1: "mset (load parse lc (save stringify xs)) = image_mset expense_to_json (mset xs)"
    unfolding l by (simp add: mset_js_sort)
  have 2: "\<forall>e \<in> set xs. \<forall>e'. expense_to_json e = expense_to_json e' \<longrightarrow> e = e'"
    using assms(1) expense_to_json_inject by blast
  have 3: "sorted_wrt (\<lambda>a b. lc (date b) (date a) \<le> 0) (js_sort (\<lambda>a b. lc (date b) (date a)) xs)"
    if c: "consistent_compare lc"
  proof (rule sorted_js_sort)
    show "lc (date b) (date a) \<le> 0 \<or> lc (date a) (date b) \<le> 0" for a b :: expense
      using c by (rule lc_total)
    show "lc (date b) (date a) \<le> 0 \<Longrightarrow> lc (date d) (date b) \<le> 0
          \<Longrightarrow> lc (date d) (date a) \<le> 0" for a b d :: expense
      using c by (rule lc_le_trans)
  qed
  from l 1 2 3 show ?thesis by blast
qed

theorem save_load_roundtrip_witness:
  "list_all (\<lambda>e. isFinite (amount e)) [ex_food, ex_tech]
   \<and> ex_parse (ex_stringify (JArr (map expense_to_json [ex_food, ex_tech])))
       = Some (JArr (map expense_to_json [ex_food, ex_tech]))
   \<and> ex_stringify (JArr (map expense_to_json [ex_food, ex_tech])) \<noteq> []
   \<and> consistent_compare code_unit_compare
   \<and> load ex_parse code_unit_compare (save ex_stringify [ex_food, ex_tech])
       = map expense_to_json [ex_tech, ex_food]"
proof -
  have a: "\<forall>e \<in> set [ex_food, ex_tech]. isFinite (amount e)"
    by (simp add: ex_food_def ex_tech_def)
  have s: "ex_stringify (JArr (map expense_to_json [ex_food, ex_tech])) = ''saved''"
    by (simp add: ex_stringify_def)
  have b: "ex_parse (ex_stringify (JArr (map expense_to_json [ex_food, ex_tech])))
       = Some (JArr (map expense_to_json [ex_food, ex_tech]))"
    unfolding s by (simp add: ex_parse_def)
  have c: "ex_stringify (JArr (map expense_to_json [ex_food, ex_tech])) \<noteq> []"
    unfolding s by simp
  have d: "js_sort (\<lambda>a b. code_unit_compare (date b) (date a)) [ex_food, ex_tech] = [ex_tech, ex_food]"
    by code_simp
  have "load ex_parse code_unit_compare (save ex_stringify [ex_food, ex_tech])
        = map expense_to_json (js_sort (\<lambda>a b. code_unit_compare (date b) (date a)) [ex_food, ex_tech])"
    using a b c consistent_code_unit_compare
      save_load_roundtrip [where xs = "[ex_food, ex_tech]" and parse = ex_parse
        and stringify = ex_stringify and lc = code_unit_compare]
    by blast
  then have e: "load ex_parse code_unit_compare (save ex_stringify [ex_food, ex_tech])
        = map expense_to_json [ex_tech, ex_food]"
    unfolding d .
  have f: "list_all (\<lambda>e. isFinite (amount e)) [ex_food, ex_tech]"
    by (simp add: ex_food_def ex_tech_def)
  from b c e f consistent_code_unit_compare show ?thesis by blast
qed

lemma round_half_even_of_int: "round_half_even (of_int m) = m"
  by (simp add: round_half_even_def)

lemma pow2_nonpos: "e \<le> 0 \<Longrightarrow> pow2 e = 1 / 2 ^ nat (- e)"
  by (cases "e = 0") (simp_all add: pow2_def)

lemma bitlen_pos: "0 < n \<Longrightarrow> 0 < bitlen n"
  using bitlen_eq_zero_iff [of n] bitlen_nonneg [of n] by linarith

lemma fl_of_int:
  assumes "0 \<le> n" "n < 2 ^ 53"
  shows "fl (of_int n) = Fin (of_int n)"
proof (cases "n = 0")
  case True
  then show ?thesis by (simp add: fl_def)
next
  case False
  then have pos: "0 < n" using assms by simp
  define b where "b = bitlen n - 1"
  have b0: "0 \<le> b" using bitlen_pos [OF pos] by (simp add: b_def)
  have "bitlen n \<le> 53" using assms(2) by (simp add: bitlen_le_iff_power)
  then have b52: "b \<le> 52" by (simp add: b_def)
  have il: "ilog2 (of_int n) = b" using pos by (simp add: ilog2_def b_def)
  define d where "d = nat (52 - b)"
  have u: "pow2 (b - 52) = 1 / 2 ^ d" using b52 by (simp add: pow2_nonpos d_def)
  have q: "rat_of_int n / (1 / 2 ^ d) = of_int (n * 2 ^ d)" by simp
  have e: "max b (- 1022) = b" using b0 by simp
  have k: "round_half_even (rat_of_int n / (1 / 2 ^ d)) = n * 2 ^ d"
    unfolding q by (rule round_half_even_of_int)
  have "fl_pos (of_int n) = Fin (of_int (n * 2 ^ d) * (1 / 2 ^ d))"
    using b52 unfolding fl_pos_def il e u Let_def k by simp
  then show ?thesis using pos by (simp add: fl_def)
qed

lemma digit_val_bounds: "is_digit c \<Longrightarrow> 0 \<le> digit_val c \<and> digit_val c \<le> 9"
proof -
  assume d: "is_digit c"
  have "(of_char c :: int) = int (of_char c)" by (simp add: of_nat_of_char)
  then show ?thesis using d unfolding is_digit_def digit_val_def by linarith
qed

lemma digits_val_snoc: "digits_val (ds @ [c]) = 10 * digits_val ds + digit_val c"
  by (simp add: digits_val_def)

lemma digits_val_bounds:
  "list_all is_digit ds \<Longrightarrow> 0 \<le> digits_val ds \<and> digits_val ds < 10 ^ length ds"
proof (induction ds rule: rev_induct)
  case Nil
  then show ?case by (simp add: digits_val_def)
next
  case (snoc c ds)
  then have "0 \<le> digits_val ds" "digits_val ds + 1 \<le> 10 ^ length ds"
    "0 \<le> digit_val c" "digit_val c \<le> 9"
    using digit_val_bounds [of c] by simp_all
  then show ?case unfolding digits_val_snoc by simp
qed

lemma is_digit_not_space: "is_digit c \<Longrightarrow> \<not> is_space c"
  by (auto simp: is_digit_def is_space_def)

lemma trim_no_space:
  assumes "s \<noteq> []" "\<not> is_space (hd s)" "\<not> is_space (last s)"
  shows "trim s = s"
proof -
  have a: "dropWhile is_space s = s" using assms(1,2) by (simp add: dropWhile_eq_self_iff)
  have "dropWhile is_space (rev s) = rev s"
    using assms(1,3) by (simp add: dropWhile_eq_self_iff hd_rev)
  then show ?thesis by (simp add: trim_def a)
qed

lemma digits_not_prefixed:
  assumes "list_all is_digit ds" "\<not> is_digit x"
  shows "\<not> startsWith ds [z, x]"
proof
  assume "startsWith ds [z, x]"
  then obtain a where "ds = [z, x] @ a" unfolding startsWith_iff by blast
  then have "x \<in> set ds" by simp
  then show False using assms by (simp add: list_all_iff)
qed

lemma unsigned_decimal_digits:
  assumes "ds \<noteq> []" "list_all is_digit ds"
  shows "unsigned_decimal ds = Some (fl (of_int (digits_val ds)), [])"
proof -
  have "\<not> is_digit CHR ''I''" by (simp add: is_digit_def)
  then have "hd ds \<noteq> CHR ''I''" using assms by (cases ds) auto
  then have i: "\<not> startsWith ds ''Infinity''" using assms(1) by (cases ds) auto
  have t: "takeWhile is_digit ds = ds" using assms(2) by (simp add: list_all_iff)
  have d: "dropWhile is_digit ds = []" using assms(2) by (simp add: list_all_iff)
  show ?thesis
    using assms(1) by (simp add: unsigned_decimal_def i t d exponent_part_def pow10_def)
qed

lemma str_decimal_digits:
  assumes "ds \<noteq> []" "list_all is_digit ds"
  shows "str_decimal ds = Some (fl (of_int (digits_val ds)), [])"
proof -
  obtain c r where ds: "ds = c # r" using assms(1) by (cases ds) auto
  have "\<not> is_digit CHR ''+''" "\<not> is_digit CHR ''-''" by (simp_all add: is_digit_def)
  then have "c \<noteq> CHR ''+''" "c \<noteq> CHR ''-''" using assms(2) ds by auto
  then have "str_decimal ds = unsigned_decimal ds" by (simp add: str_decimal_def ds)
  then show ?thesis using unsigned_decimal_digits [OF assms] by simp
qed

lemma js_Number_digits:
  assumes "ds \<noteq> []" "list_all is_digit ds" "digits_val ds < 2 ^ 53"
  shows "js_Number ds = Fin (of_int (digits_val ds))"
proof -
  have "is_digit (hd ds)" "is_digit (last ds)" using assms(1,2) by (simp_all add: list_all_iff)
  then have t: "trim ds = ds" using assms(1) by (intro trim_no_space is_digit_not_space)
  have "\<not> is_digit CHR ''x''" "\<not> is_digit CHR ''X''" "\<not> is_digit CHR ''o''"
    "\<not> is_digit CHR ''O''" "\<not> is_digit CHR ''b''" "\<not> is_digit CHR ''B''"
    by (simp_all add: is_digit_def)
  then have p: "\<not> startsWith ds ''0x''" "\<not> startsWith ds ''0X''" "\<not> startsWith ds ''0o''"
    "\<not> startsWith ds ''0O''" "\<not> startsWith ds ''0b''" "\<not> startsWith ds ''0B''"
    using digits_not_prefixed [OF assms(2)] by blast+
  have "js_Number ds = fl (of_int (digits_val ds))"
    using assms(1) by (simp add: js_Number_def t p str_decimal_digits [OF assms(1,2)])
  then show ?thesis using digits_val_bounds [OF assms(2)] assms(3) by (simp add: fl_of_int)
qed

lemma pow2_powi: "pow2 e = power_int 2 e"
  by (simp add: pow2_def power_int_def inverse_eq_divide power_one_over)

lemma pow2_pos: "0 < pow2 e"
  by (simp add: pow2_powi)

lemma pow2_add: "pow2 (i + j) = pow2 i * pow2 j"
  by (simp add: pow2_powi power_int_add)

lemma pow2_mono: "i \<le> j \<Longrightarrow> pow2 i \<le> pow2 j"
  by (simp add: pow2_powi power_int_increasing)

lemma pow2_strict_mono: "i < j \<Longrightarrow> pow2 i < pow2 j"
  by (simp add: pow2_powi power_int_strict_increasing)

lemma pow2_of_int: "0 \<le> e \<Longrightarrow> pow2 e = of_int (2 ^ nat e)"
  by (simp add: pow2_def)

lemma ilog2_lower:
  assumes "0 < a"
  shows "pow2 (ilog2 a) \<le> a"
proof (cases "1 \<le> a")
  case True
  then have f: "0 < \<lfloor>a\<rfloor>" by linarith
  have b: "0 \<le> bitlen \<lfloor>a\<rfloor> - 1" using bitlen_pos [OF f] by simp
  have "2 ^ nat (bitlen \<lfloor>a\<rfloor> - 1) \<le> \<lfloor>a\<rfloor>" using bitlen_bounds [OF f] by simp
  then have "rat_of_int (2 ^ nat (bitlen \<lfloor>a\<rfloor> - 1)) \<le> of_int \<lfloor>a\<rfloor>" by (simp only: of_int_le_iff)
  also have "\<dots> \<le> a" by simp
  finally show ?thesis using True b by (simp add: ilog2_def pow2_of_int)
next
  case False
  define c where "c = \<lceil>1 / a\<rceil> - 1"
  have "1 < 1 / a" using assms False by simp
  then have c: "0 < c" unfolding c_def by linarith
  have ca: "1 / a \<le> of_int (c + 1)" unfolding c_def by simp
  have "c < 2 ^ nat (bitlen c)" using bitlen_bounds [OF c] by simp
  then have "c + 1 \<le> 2 ^ nat (bitlen c)" by simp
  then have "rat_of_int (c + 1) \<le> of_int (2 ^ nat (bitlen c))" by (simp only: of_int_le_iff)
  then have "rat_of_int (c + 1) \<le> 2 ^ nat (bitlen c)" by simp
  then have "1 / a \<le> 2 ^ nat (bitlen c)" using ca by linarith
  then have "1 / 2 ^ nat (bitlen c) \<le> a"
    using assms by (simp add: field_simps)
  moreover have "pow2 (- bitlen c) = 1 / 2 ^ nat (bitlen c)"
    using bitlen_nonneg [of c] by (simp add: pow2_nonpos)
  ultimately show ?thesis using False by (simp add: ilog2_def c_def)
qed

lemma ilog2_upper:
  assumes "0 < a"
  shows "a < pow2 (ilog2 a + 1)"
proof (cases "1 \<le> a")
  case True
  then have f: "0 < \<lfloor>a\<rfloor>" by linarith
  have b: "0 \<le> bitlen \<lfloor>a\<rfloor>" by (rule bitlen_nonneg)
  have "\<lfloor>a\<rfloor> < 2 ^ nat (bitlen \<lfloor>a\<rfloor>)" using bitlen_bounds [OF f] by simp
  then have "\<lfloor>a\<rfloor> + 1 \<le> 2 ^ nat (bitlen \<lfloor>a\<rfloor>)" by simp
  then have "rat_of_int (\<lfloor>a\<rfloor> + 1) \<le> of_int (2 ^ nat (bitlen \<lfloor>a\<rfloor>))" by (simp only: of_int_le_iff)
  moreover have "a < of_int (\<lfloor>a\<rfloor> + 1)" by linarith
  ultimately have "a < of_int (2 ^ nat (bitlen \<lfloor>a\<rfloor>))" by linarith
  then show ?thesis using True b by (simp add: ilog2_def pow2_of_int)
next
  case False
  define c where "c = \<lceil>1 / a\<rceil> - 1"
  have "1 < 1 / a" using assms False by simp
  then have c: "0 < c" unfolding c_def by linarith
  have ca: "of_int c < 1 / a" unfolding c_def by linarith
  have b: "0 < bitlen c" using bitlen_pos [OF c] .
  have "2 ^ nat (bitlen c - 1) \<le> c" using bitlen_bounds [OF c] by simp
  then have "rat_of_int (2 ^ nat (bitlen c - 1)) \<le> of_int c" by (simp only: of_int_le_iff)
  then have "(2::rat) ^ nat (bitlen c - 1) \<le> of_int c" by simp
  then have "2 ^ nat (bitlen c - 1) < 1 / a" using ca by linarith
  then have "a < 1 / 2 ^ nat (bitlen c - 1)"
    using assms by (simp add: field_simps)
  moreover have "pow2 (- bitlen c + 1) = 1 / 2 ^ nat (bitlen c - 1)"
    using b pow2_nonpos [of "- bitlen c + 1"] by simp
  ultimately show ?thesis using False by (simp add: ilog2_def c_def)
qed

lemma round_half_even_bounds: "\<lfloor>x\<rfloor> \<le> round_half_even x \<and> round_half_even x \<le> \<lfloor>x\<rfloor> + 1"
  by (simp add: round_half_even_def Let_def)

lemma fl_pos_shape:
  assumes "0 < a"
  shows "fl_pos a = PosInf \<or>
         (\<exists>k e. - 1022 \<le> e \<and> 0 \<le> k \<and> k \<le> 2 ^ 53 \<and> fl_pos a = Fin (of_int k * pow2 (e - 52))
            \<and> (pow2 (- 1074) \<le> a \<longrightarrow> 1 \<le> k))"
proof -
  define e where "e = max (ilog2 a) (- 1022)"
  define u where "u = pow2 (e - 52)"
  define k where "k = round_half_even (a / u)"
  have u: "0 < u" unfolding u_def by (rule pow2_pos)
  have e1: "- 1022 \<le> e" and e2: "ilog2 a \<le> e" by (simp_all add: e_def)
  have "e + 1 = e - 52 + 53" by simp
  then have "pow2 (e + 1) = pow2 (e - 52 + 53)" by (rule arg_cong)
  also have "\<dots> = u * pow2 53" unfolding u_def by (rule pow2_add)
  also have "\<dots> = u * 2 ^ 53" by (simp add: pow2_def)
  finally have p: "pow2 (e + 1) = u * 2 ^ 53" .
  have "a < pow2 (ilog2 a + 1)" using assms by (rule ilog2_upper)
  also have "\<dots> \<le> pow2 (e + 1)" using e2 by (intro pow2_mono) simp
  finally have "a < u * 2 ^ 53" unfolding p .
  then have "a / u < of_int (2 ^ 53)" using u by (simp add: field_simps)
  then have "\<lfloor>a / u\<rfloor> < 2 ^ 53" by (simp only: floor_less_iff)
  then have k2: "k \<le> 2 ^ 53" using round_half_even_bounds [of "a / u"] unfolding k_def by linarith
  have "0 \<le> a / u" using assms u by simp
  then have "0 \<le> \<lfloor>a / u\<rfloor>" by simp
  then have k0: "0 \<le> k" using round_half_even_bounds [of "a / u"] unfolding k_def by linarith
  have k1: "1 \<le> k" if g: "pow2 (- 1074) \<le> a"
  proof -
    have "u \<le> a"
    proof (cases "- 1022 \<le> ilog2 a")
      case True
      then have "e = ilog2 a" by (simp add: e_def)
      then have "u \<le> pow2 (ilog2 a)" unfolding u_def by (intro pow2_mono) simp
      also have "\<dots> \<le> a" using assms by (rule ilog2_lower)
      finally show ?thesis .
    next
      case False
      then have "e = - 1022" by (simp add: e_def)
      then have "u = pow2 (- 1074)" by (simp add: u_def)
      then show ?thesis using g by simp
    qed
    then have "1 \<le> a / u" using u by simp
    then have "1 \<le> \<lfloor>a / u\<rfloor>" by simp
    then show ?thesis using round_half_even_bounds [of "a / u"] unfolding k_def by linarith
  qed
  have f: "fl_pos a = (if 1023 < e \<or> (e = 1023 \<and> k = 2 ^ 53) then PosInf
                       else Fin (of_int k * pow2 (e - 52)))"
    by (simp only: fl_pos_def Let_def e_def u_def k_def)
  show ?thesis
  proof (cases "1023 < e \<or> (e = 1023 \<and> k = 2 ^ 53)")
    case True
    then show ?thesis using f by simp
  next
    case False
    then have "fl_pos a = Fin (of_int k * pow2 (e - 52))" using f by simp
    then show ?thesis using e1 k0 k2 k1 by blast
  qed
qed

lemma on_grid_multiple:
  assumes "- 1022 \<le> e"
  shows "on_grid (Fin (of_int k * pow2 (e - 52)))"
proof -
  have "e - 52 = e + 1022 + (- 1074)" by simp
  then have "pow2 (e - 52) = pow2 (e + 1022 + (- 1074))" by (rule arg_cong)
  also have "\<dots> = pow2 (e + 1022) * pow2 (- 1074)" by (rule pow2_add)
  also have "pow2 (e + 1022) = of_int (2 ^ nat (e + 1022))" using assms by (intro pow2_of_int) simp
  finally have "of_int k * pow2 (e - 52) = of_int (k * 2 ^ nat (e + 1022)) * pow2 (- 1074)"
    by simp
  then show ?thesis unfolding on_grid.simps by (rule exI)
qed

lemma on_grid_neg: "on_grid v \<Longrightarrow> on_grid (js_neg v)"
proof (cases v)
  case (Fin r)
  assume "on_grid v"
  then obtain j :: int where "r = of_int j * pow2 (- 1074)" using Fin by auto
  then have "- r = of_int (- j) * pow2 (- 1074)" by simp
  then show ?thesis unfolding Fin js_neg.simps on_grid.simps by (rule exI)
qed simp_all

lemma on_grid_fl_pos: "0 < a \<Longrightarrow> on_grid (fl_pos a)"
  using fl_pos_shape [of a] on_grid_multiple by auto

lemma on_grid_fl: "on_grid (fl q)"
proof -
  have "on_grid (Fin 0)" unfolding on_grid.simps by (rule exI [of _ 0]) simp
  then show ?thesis by (simp add: fl_def on_grid_fl_pos on_grid_neg)
qed

lemma on_grid_js_add: "on_grid (js_add x y)"
  by (cases x; cases y) (simp_all add: on_grid_fl)

lemma fl_pos_not_NaN: "0 < a \<Longrightarrow> fl_pos a \<noteq> NaN \<and> fl_pos a \<noteq> NegInf"
  using fl_pos_shape [of a] by auto

lemma fl_not_NaN: "fl q \<noteq> NaN"
proof -
  have "js_neg v \<noteq> NaN" if "v \<noteq> NaN" for v using that by (cases v) simp_all
  then show ?thesis using fl_pos_not_NaN by (simp add: fl_def)
qed

lemma js_sign_pos: "0 < r \<Longrightarrow> js_sign (Fin r) = 1"
  by simp

lemma fl_pos_sign:
  assumes "pow2 (- 1074) \<le> a"
  shows "js_sign (fl_pos a) = 1"
proof -
  have a: "0 < a" using assms pow2_pos [of "- 1074"] by linarith
  from fl_pos_shape [OF a] show ?thesis
  proof
    assume "fl_pos a = PosInf"
    then show ?thesis by simp
  next
    assume "\<exists>k e. - 1022 \<le> e \<and> 0 \<le> k \<and> k \<le> 2 ^ 53 \<and> fl_pos a = Fin (of_int k * pow2 (e - 52))
            \<and> (pow2 (- 1074) \<le> a \<longrightarrow> 1 \<le> k)"
    then obtain k e where f: "fl_pos a = Fin (of_int k * pow2 (e - 52))" and "1 \<le> k"
      using assms by blast
    then have "0 < rat_of_int k" by simp
    then have "0 < rat_of_int k * pow2 (e - 52)" using pow2_pos [of "e - 52"] by (rule mult_pos_pos)
    then have "js_sign (Fin (rat_of_int k * pow2 (e - 52))) = 1"
      by (rule js_sign_pos)
    then show ?thesis unfolding f .
  qed
qed

lemma js_neg_sign: "js_sign (js_neg v) = - js_sign v"
  by (cases v) simp_all

lemma js_sign_fl_grid:
  assumes "q = of_int j * pow2 (- 1074)"
  shows "js_sign (fl q) = (if j < 0 then - 1 else if j = 0 then 0 else 1)"
proof -
  have g: "0 < pow2 (- 1074)" by (rule pow2_pos)
  consider "j = 0" | "0 < j" | "j < 0" by linarith
  then show ?thesis
  proof cases
    case 1
    then show ?thesis using assms by (simp add: fl_def)
  next
    case 2
    then have "1 \<le> rat_of_int j" by simp
    then have "1 * pow2 (- 1074) \<le> of_int j * pow2 (- 1074)"
      using g by (intro mult_right_mono) simp_all
    then have "pow2 (- 1074) \<le> q" using assms by simp
    then have "js_sign (fl_pos q) = 1" "0 < q" using fl_pos_sign g by auto
    then show ?thesis using 2 by (simp add: fl_def)
  next
    case 3
    then have "1 \<le> rat_of_int (- j)" by simp
    then have "1 * pow2 (- 1074) \<le> of_int (- j) * pow2 (- 1074)"
      using g by (intro mult_right_mono) simp_all
    then have "pow2 (- 1074) \<le> - q" using assms by simp
    then have "js_sign (fl_pos (- q)) = 1" "q < 0" using fl_pos_sign [of "- q"] g by auto
    then show ?thesis using 3 by (simp add: fl_def js_neg_sign)
  qed
qed

lemma js_sign_sub_Fin:
  assumes "on_grid (Fin b)" "on_grid (Fin a)"
  shows "js_sign (js_sub (Fin b) (Fin a)) \<le> 0 \<longleftrightarrow> b \<le> a"
proof -
  obtain i j :: int where b: "b = of_int i * pow2 (- 1074)" and a: "a = of_int j * pow2 (- 1074)"
    using assms by auto
  have g: "0 < pow2 (- 1074)" by (rule pow2_pos)
  have d: "b + - a = of_int (i - j) * pow2 (- 1074)" unfolding a b by (simp add: algebra_simps)
  have "b \<le> a \<longleftrightarrow> rat_of_int i \<le> of_int j" unfolding a b using g by simp
  then have le: "b \<le> a \<longleftrightarrow> i - j \<le> 0" by simp
  have "js_sub (Fin b) (Fin a) = fl (b + - a)" by (simp add: js_sub_def)
  then have "js_sign (js_sub (Fin b) (Fin a)) = (if i - j < 0 then - 1 else if i - j = 0 then 0 else 1)"
    using js_sign_fl_grid [OF d] by simp
  then show ?thesis unfolding le by simp
qed

lemma js_sign_sub:
  assumes "on_grid y" "on_grid x" "x \<noteq> NaN" "y \<noteq> NaN"
  shows "js_sign (js_sub y x) \<le> 0 \<longleftrightarrow> js_le y x"
proof (cases "\<exists>b a. y = Fin b \<and> x = Fin a")
  case True
  then show ?thesis using assms js_sign_sub_Fin by auto
next
  case False
  then show ?thesis using assms by (cases y; cases x) (simp_all add: js_sub_def)
qed

lemma ToIntegerOrInfinity_of_int: "ToIntegerOrInfinity (of_int k) = k"
  by (simp add: ToIntegerOrInfinity_def)

lemma mod400_mod4: "(y::int) mod 400 = 0 \<Longrightarrow> y mod 4 = 0"
proof -
  assume a: "y mod 400 = 0"
  have "y mod 4 = y mod 400 mod 4" by (simp add: mod_mod_cancel)
  then show ?thesis using a by simp
qed

lemma leap_year_1900:
  assumes "1 \<le> Y" "Y \<le> 9999"
  shows "InLeapYear (if 0 \<le> Y \<and> Y \<le> 99 then 1900 + Y else Y) \<longleftrightarrow>
         Y mod 400 = 0 \<or> (Y mod 4 = 0 \<and> Y mod 100 \<noteq> 0)"
proof (cases "Y \<le> 99")
  case True
  have a: "(1900 + Y) mod 4 = Y mod 4"
    using mod_mult_self2 [of Y 4 475] by (simp add: add.commute)
  have b: "(1900 + Y) mod 100 = Y mod 100"
    using mod_mult_self2 [of Y 100 19] by (simp add: add.commute)
  have c: "Y mod 100 = Y" "Y mod 400 = Y" using assms(1) True by simp_all
  have "(1900 + Y) mod 400 = (300 + Y + 400 * 4) mod 400" by simp
  also have "\<dots> = (300 + Y) mod 400" by (simp only: mod_mult_self2)
  also have "\<dots> = 300 + Y" using assms(1) True by simp
  finally have d: "(1900 + Y) mod 400 = 300 + Y" .
  show ?thesis using assms(1) True by (simp add: InLeapYear_def a b c d)
next
  case False
  then show ?thesis using mod400_mod4 [of Y] by (auto simp: InLeapYear_def)
qed

lemma div_bounds: "0 < c \<Longrightarrow> c * (a div c) \<le> (a::int) \<and> a < c * (a div c) + c"
  using pos_mod_sign [of c a] pos_mod_bound [of c a] mult_div_mod_eq [of c a] by linarith

lemma DayFromYear_bounds:
  assumes "1 \<le> y" "y \<le> 10000"
  shows "- 1000000 \<le> DayFromYear y \<and> DayFromYear y \<le> 3000000"
proof -
  define a where "a = (y - 1969) div 4"
  define b where "b = (y - 1901) div 100"
  define c where "c = (y - 1601) div 400"
  have "4 * a \<le> y - 1969 \<and> y - 1969 < 4 * a + 4"
    unfolding a_def by (rule div_bounds) simp
  then have a: "- 500 \<le> a" "a \<le> 2500" using assms by linarith+
  have "100 * b \<le> y - 1901 \<and> y - 1901 < 100 * b + 100"
    unfolding b_def by (rule div_bounds) simp
  then have b: "- 20 \<le> b" "b \<le> 100" using assms by linarith+
  have "400 * c \<le> y - 1601 \<and> y - 1601 < 400 * c + 400"
    unfolding c_def by (rule div_bounds) simp
  then have c: "- 5 \<le> c" "c \<le> 50" using assms by linarith+
  have d: "DayFromYear y = 365 * (y - 1970) + a - b + c"
    by (simp add: DayFromYear_def a_def b_def c_def)
  show ?thesis unfolding d using a b c assms by simp
qed

lemma valid_time:
  assumes "- 1000000 \<le> (d::int)" "d \<le> 3000000" "0 \<le> s" "s \<le> 366"
  shows "\<not> 8640000000000000 < \<bar>(d + s - 1) * 86400000\<bar>"
  using assms by (simp add: abs_if)

lemma cases12:
  assumes "1 \<le> (M::int)" "M \<le> 12"
  shows "M = 1 \<or> M = 2 \<or> M = 3 \<or> M = 4 \<or> M = 5 \<or> M = 6 \<or> M = 7 \<or> M = 8 \<or> M = 9
         \<or> M = 10 \<or> M = 11 \<or> M = 12"
  using assms by presburger

lemma sum_take_bounds:
  "\<forall>x \<in> set xs. (0::int) \<le> x \<Longrightarrow>
   0 \<le> sum_list (take n xs) \<and> sum_list (take n xs) \<le> sum_list xs"
proof (induction xs arbitrary: n)
  case Nil
  then show ?case by simp
next
  case (Cons x xs)
  show ?case
  proof (cases n)
    case 0
    then show ?thesis using Cons.prems by (simp add: sum_list_nonneg)
  next
    case (Suc m)
    then show ?thesis using Cons.IH [of m] Cons.prems by simp
  qed
qed

lemma month_start_bounds:
  "0 \<le> sum_list (take n (month_lengths y)) \<and> sum_list (take n (month_lengths y)) \<le> 366"
proof -
  have "\<forall>x \<in> set (month_lengths y). 0 \<le> x" by (simp add: month_lengths_def)
  moreover have "sum_list (month_lengths y) \<le> 366" by (simp add: month_lengths_def)
  ultimately show ?thesis using sum_take_bounds [of "month_lengths y" n] by linarith
qed

lemma new_Date_getDate_month:
  assumes "1 \<le> Y" "Y \<le> 9999" "1 \<le> M" "M \<le> 12"
  shows "new_Date_getDate (Fin (of_int Y)) (Fin (of_int M)) = Fin (of_int (calendar_days Y M))"
proof -
  define yr where "yr = (if 0 \<le> Y \<and> Y \<le> 99 then 1900 + Y else Y)"
  have yr: "1 \<le> yr" "yr \<le> 9999" using assms(1,2) by (auto simp: yr_def)
  have leap: "InLeapYear yr \<longleftrightarrow> Y mod 400 = 0 \<or> (Y mod 4 = 0 \<and> Y mod 100 \<noteq> 0)"
    unfolding yr_def using assms(1,2) by (rule leap_year_1900)
  define ym where "ym = yr + M div 12"
  define mn where "mn = nat (M mod 12)"
  have "M div 12 = 0 \<or> M div 12 = 1" using assms(3,4) by presburger
  then have ym: "1 \<le> ym" "ym \<le> 10000" using yr by (auto simp: ym_def)
  have ok: "\<not> 8640000000000000 < \<bar>(DayFromYear ym + sum_list (take mn (month_lengths ym)) - 1) * 86400000\<bar>"
    using valid_time DayFromYear_bounds [OF ym] month_start_bounds [of mn ym] by blast
  have r: "new_Date_getDate (Fin (of_int Y)) (Fin (of_int M)) =
        (if mn = 0 then Fin (of_int (month_lengths (ym - 1) ! 11))
         else Fin (of_int (month_lengths ym ! (mn - 1))))"
    using ok by (simp add: new_Date_getDate_def ToIntegerOrInfinity_of_int Let_def
        yr_def [symmetric] ym_def [symmetric] mn_def [symmetric])
  show ?thesis
    unfolding r using cases12 [OF assms(3,4)]
    by (elim disjE) (simp_all add: mn_def ym_def month_lengths_def calendar_days_def leap)
qed

lemma month_lengths_range:
  assumes "i < 12"
  shows "28 \<le> month_lengths y ! i \<and> month_lengths y ! i \<le> 31"
proof -
  have "\<forall>x \<in> set (month_lengths y). 28 \<le> x \<and> x \<le> 31" by (simp add: month_lengths_def)
  moreover have "month_lengths y ! i \<in> set (month_lengths y)"
    using assms by (intro nth_mem) (simp add: month_lengths_def)
  ultimately show ?thesis by blast
qed

lemma new_Date_getDate_range:
  "new_Date_getDate y m = NaN \<or>
   (\<exists>d. 28 \<le> d \<and> d \<le> 31 \<and> new_Date_getDate y m = Fin (of_int d))"
proof (cases "\<exists>a b. y = Fin a \<and> m = Fin b")
  case False
  then have "new_Date_getDate y m = NaN"
    by (cases y; cases m) (simp_all add: new_Date_getDate_def)
  then show ?thesis by simp
next
  case True
  then obtain a b where ab: "y = Fin a" "m = Fin b" by blast
  define mn where "mn = nat (ToIntegerOrInfinity b mod 12)"
  have "mn < 12" by (simp add: mn_def nat_less_iff)
  then have "mn - 1 < 12" by simp
  then show ?thesis
    using month_lengths_range [of "mn - 1"] month_lengths_range [of 11]
    unfolding ab new_Date_getDate_def Let_def mn_def by (auto simp del: of_int_numeral)
qed

lemma daysInMonth_range:
  "daysInMonth month = NaN \<or>
   (\<exists>d. 28 \<le> d \<and> d \<le> 31 \<and> daysInMonth month = Fin (of_int d))"
proof (cases "month = []")
  case True
  have "(28::int) \<le> 30 \<and> (30::int) \<le> 31 \<and> daysInMonth month = Fin (of_int 30)"
    using True by (simp add: daysInMonth_def)
  then show ?thesis by blast
next
  case False
  then show ?thesis using new_Date_getDate_range by (simp add: daysInMonth_def)
qed

lemma daysInMonth_abc: "daysInMonth ''abc'' = NaN"
  by code_simp

text \<open>
  C10. The day count of any month text is \<open>NaN\<close> or a number from 28 to 31, never zero.
  Where it is \<open>NaN\<close> (or were it zero) the daily average is the total itself; otherwise it
  is the total divided by a day count that is neither zero nor \<open>NaN\<close>. The month text
  \<open>abc\<close> has the day count \<open>NaN\<close>.
\<close>

theorem dailyAverage_never_divides_by_zero:
  "(daysInMonth month = NaN \<or> daysInMonth month = Fin 0 \<longrightarrow>
      dailyAverage month xs = total_of xs)
   \<and> (daysInMonth month = NaN \<or>
        (\<exists>d. 28 \<le> d \<and> d \<le> 31 \<and> daysInMonth month = Fin (of_int d) \<and>
             dailyAverage month xs = js_div (total_of xs) (Fin (of_int d))))
   \<and> daysInMonth ''abc'' = NaN
   \<and> dailyAverage ''abc'' xs = total_of xs"
proof -
  have 1: "daysInMonth month = NaN \<or> daysInMonth month = Fin 0 \<longrightarrow>
      dailyAverage month xs = total_of xs"
    by (auto simp: dailyAverage_def)
  have 2: "daysInMonth month = NaN \<or>
        (\<exists>d. 28 \<le> d \<and> d \<le> 31 \<and> daysInMonth month = Fin (of_int d) \<and>
             dailyAverage month xs = js_div (total_of xs) (Fin (of_int d)))"
  proof (cases "daysInMonth month = NaN")
    case True
    then show ?thesis by simp
  next
    case False
    then obtain d where d: "28 \<le> d" "d \<le> 31" "daysInMonth month = Fin (of_int d)"
      using daysInMonth_range [of month] by blast
    then have "dailyAverage month xs = js_div (total_of xs) (Fin (of_int d))"
      by (simp add: dailyAverage_def)
    then show ?thesis using d by blast
  qed
  have 3: "dailyAverage ''abc'' xs = total_of xs"
    by (simp add: dailyAverage_def daysInMonth_abc)
  from 1 2 3 daysInMonth_abc show ?thesis by blast
qed

theorem dailyAverage_never_divides_by_zero_witness:
  "daysInMonth ''2024-xy'' = NaN
   \<and> dailyAverage ''2024-xy'' [ex_food, ex_tech] = total_of [ex_food, ex_tech]
   \<and> total_of [ex_food, ex_tech] = Fin 30"
proof -
  have a: "daysInMonth ''2024-xy'' = NaN" by code_simp
  have b: "total_of [ex_food, ex_tech] = Fin 30" by code_simp
  show ?thesis
    using a b dailyAverage_never_divides_by_zero [of "''2024-xy''" "[ex_food, ex_tech]"]
    by simp
qed

lemma js_div_positive:
  assumes "0 < d"
  shows "js_div v (Fin d) =
         (case v of Fin t \<Rightarrow> fl (t / d) | PosInf \<Rightarrow> PosInf | NegInf \<Rightarrow> NegInf | NaN \<Rightarrow> NaN)"
  using assms by (cases v) simp_all

lemma fl_30_31: "fl (30 / 31) = Fin (1089580555008991 / 2 ^ 50)"
  by code_simp

lemma fl_30_29: "fl (30 / 29) = Fin (4658896166245341 / 2 ^ 52)"
  by code_simp

text \<open>
  C4. For a month text of four digits, a hyphen and two digits, naming a year from 0001
  and a month from 01 to 12, the day count is the number of days of that month in the
  Gregorian calendar, and the daily average of a finite total \<open>t\<close> is the quotient of \<open>t\<close>
  by that count, rounded to binary64; an infinite total stays as it is. With no month
  selected the quotient is by 30. For the two records of March 2024 with the amounts 10 and
  20 the total is 30 and the daily average is the number \<open>30 / 31\<close>, which is
  \<open>1089580555008991 / 2 ^ 50\<close>.
\<close>

theorem dailyAverage_calendar_month:
  assumes "list_all is_digit [y1, y2, y3, y4, m1, m2]"
    and "1 \<le> digits_val [y1, y2, y3, y4]"
    and "1 \<le> digits_val [m1, m2]" and "digits_val [m1, m2] \<le> 12"
  shows "daysInMonth [y1, y2, y3, y4, CHR ''-'', m1, m2] =
           Fin (of_int (calendar_days (digits_val [y1, y2, y3, y4]) (digits_val [m1, m2])))
    \<and> dailyAverage [y1, y2, y3, y4, CHR ''-'', m1, m2] xs =
        (case total_of xs of
           Fin t \<Rightarrow>
             fl (t / of_int (calendar_days (digits_val [y1, y2, y3, y4]) (digits_val [m1, m2])))
         | PosInf \<Rightarrow> PosInf | NegInf \<Rightarrow> NegInf | NaN \<Rightarrow> NaN)
    \<and> dailyAverage [] xs =
        (case total_of xs of
           Fin t \<Rightarrow> fl (t / 30) | PosInf \<Rightarrow> PosInf | NegInf \<Rightarrow> NegInf | NaN \<Rightarrow> NaN)
    \<and> filteredExpenses code_unit_compare ''2024-03'' ''all'' [] [ex_food, ex_tech] =
        [ex_tech, ex_food]
    \<and> total_of [ex_tech, ex_food] = Fin 30
    \<and> dailyAverage ''2024-03'' [ex_tech, ex_food] = fl (30 / 31)
    \<and> dailyAverage ''2024-03'' [ex_tech, ex_food] = Fin (1089580555008991 / 2 ^ 50)"
proof -
  define Y where "Y = digits_val [y1, y2, y3, y4]"
  define M where "M = digits_val [m1, m2]"
  have dy: "list_all is_digit [y1, y2, y3, y4]" and dm: "list_all is_digit [m1, m2]"
    using assms(1) by simp_all
  have "Y < 10 ^ length [y1, y2, y3, y4]" unfolding Y_def using digits_val_bounds [OF dy] by blast
  then have Y: "1 \<le> Y" "Y \<le> 9999" "Y < 2 ^ 53" using assms(2) by (simp_all add: Y_def)
  have M: "1 \<le> M" "M \<le> 12" "M < 2 ^ 53" using assms(3,4) by (simp_all add: M_def)
  have ny: "js_Number [y1, y2, y3, y4] = Fin (of_int Y)"
    unfolding Y_def using dy Y(3) by (intro js_Number_digits) (simp_all add: Y_def)
  have nm: "js_Number [m1, m2] = Fin (of_int M)"
    unfolding M_def using dm M(3) by (intro js_Number_digits) (simp_all add: M_def)
  have days: "daysInMonth [y1, y2, y3, y4, CHR ''-'', m1, m2] = Fin (of_int (calendar_days Y M))"
    by (simp add: daysInMonth_def ny nm new_Date_getDate_month [OF Y(1,2) M(1,2)])
  have "28 \<le> calendar_days Y M" by (simp add: calendar_days_def)
  then have pos: "0 < rat_of_int (calendar_days Y M)" by simp
  then have "dailyAverage [y1, y2, y3, y4, CHR ''-'', m1, m2] xs =
        js_div (total_of xs) (Fin (of_int (calendar_days Y M)))"
    by (simp add: dailyAverage_def days)
  then have avg: "dailyAverage [y1, y2, y3, y4, CHR ''-'', m1, m2] xs =
        (case total_of xs of
           Fin t \<Rightarrow> fl (t / of_int (calendar_days Y M))
         | PosInf \<Rightarrow> PosInf | NegInf \<Rightarrow> NegInf | NaN \<Rightarrow> NaN)"
    using js_div_positive [OF pos, of "total_of xs"] by simp
  have "dailyAverage [] xs = js_div (total_of xs) (Fin 30)"
    by (simp add: dailyAverage_def daysInMonth_def)
  then have none: "dailyAverage [] xs =
        (case total_of xs of
           Fin t \<Rightarrow> fl (t / 30) | PosInf \<Rightarrow> PosInf | NegInf \<Rightarrow> NegInf | NaN \<Rightarrow> NaN)"
    using js_div_positive [of 30 "total_of xs"] by simp
  have f: "filteredExpenses code_unit_compare ''2024-03'' ''all'' [] [ex_food, ex_tech] =
        [ex_tech, ex_food]"
    by code_simp
  have t: "total_of [ex_tech, ex_food] = Fin 30" by code_simp
  have "daysInMonth ''2024-03'' = Fin 31" by code_simp
  then have e: "dailyAverage ''2024-03'' [ex_tech, ex_food] = fl (30 / 31)"
    by (simp add: dailyAverage_def t)
  then have e': "dailyAverage ''2024-03'' [ex_tech, ex_food] = Fin (1089580555008991 / 2 ^ 50)"
    unfolding fl_30_31 .
  from days avg none f t e e' show ?thesis unfolding Y_def M_def by blast
qed

theorem dailyAverage_calendar_month_witness:
  "list_all is_digit ''202402'' \<and> 1 \<le> digits_val ''2024'' \<and> 1 \<le> digits_val ''02''
   \<and> digits_val ''02'' \<le> 12
   \<and> calendar_days (digits_val ''2024'') (digits_val ''02'') = 29
   \<and> daysInMonth ''2024-02'' = Fin 29
   \<and> total_of [ex_tech, ex_food] = Fin 30
   \<and> dailyAverage ''2024-02'' [ex_tech, ex_food] = fl (30 / 29)
   \<and> dailyAverage ''2024-02'' [ex_tech, ex_food] = Fin (4658896166245341 / 2 ^ 52)"
proof -
  have a: "list_all is_digit ''202402''" by code_simp
  have b: "1 \<le> digits_val ''2024''" "1 \<le> digits_val ''02''" "digits_val ''02'' \<le> 12"
    by code_simp+
  have c: "calendar_days (digits_val ''2024'') (digits_val ''02'') = 29" by code_simp
  have t: "total_of [ex_tech, ex_food] = Fin 30" by code_simp
  have d: "daysInMonth ''2024-02'' = Fin 29
      \<and> dailyAverage ''2024-02'' [ex_tech, ex_food] = fl (30 / 29)"
    using a b c t
      dailyAverage_calendar_month [of "CHR ''2''" "CHR ''0''" "CHR ''2''" "CHR ''4''" "CHR ''0''"
        "CHR ''2''" "[ex_tech, ex_food]"]
    by simp
  then have e: "dailyAverage ''2024-02'' [ex_tech, ex_food] = Fin (4658896166245341 / 2 ^ 52)"
    unfolding fl_30_29 by blast
  from a b c t d e show ?thesis by blast
qed

lemma toFixed2_half_up:
  assumes "0 \<le> x"
  shows "rounds_half_up_to x (toFixed2 x)"
proof -
  define n where "n = \<lfloor>x * 100 + 1 / 2\<rfloor>"
  have r: "toFixed2 x = of_int n / 100" using assms by (simp add: toFixed2_def n_def)
  have "of_int n \<le> x * 100 + 1 / 2" "x * 100 + 1 / 2 < of_int n + 1"
    unfolding n_def by linarith+
  then have b: "of_int n / 100 - x \<le> 1 / 200" "- (1 / 200) < of_int n / 100 - x"
    by (simp_all add: field_simps)
  then have "\<bar>of_int n / 100 - x\<bar> \<le> 1 / 200" by linarith
  moreover have "\<bar>of_int n / 100 - x\<bar> = 1 / 200 \<longrightarrow> x < of_int n / 100" using b by linarith
  ultimately show ?thesis unfolding rounds_half_up_to_def r by blast
qed

lemma integer_rounds_to_itself:
  assumes "x = of_int m"
  shows "rounds_half_up_to x x"
proof -
  have "x = of_int (m * 100) / 100" using assms by simp
  then have "\<exists>n :: int. x = of_int n / 100" by (rule exI)
  then show ?thesis unfolding rounds_half_up_to_def by simp
qed

lemma fl_pos_nonneg: "0 < a \<Longrightarrow> fl_pos a = Fin r \<Longrightarrow> 0 \<le> r"
proof -
  assume a: "0 < a" and f: "fl_pos a = Fin r"
  then obtain k e where "0 \<le> k" and "r = of_int k * pow2 (e - 52)"
    using fl_pos_shape [OF a] by auto
  then show ?thesis using pow2_pos [of "e - 52"] by simp
qed

lemma fl_pos_large_integer:
  assumes "0 < a" "fl_pos a = Fin r" "2 ^ 53 \<le> r"
  shows "\<exists>m :: int. r = of_int m"
proof -
  obtain k e where k: "0 \<le> k" "k \<le> 2 ^ 53" and r: "r = of_int k * pow2 (e - 52)"
    using fl_pos_shape [OF assms(1)] assms(2) by auto
  have "0 \<le> e - 52"
  proof (rule ccontr)
    assume "\<not> 0 \<le> e - 52"
    then have "pow2 (e - 52) < pow2 0" by (intro pow2_strict_mono) simp
    then have p: "pow2 (e - 52) < 1" by (simp add: pow2_def)
    have "rat_of_int k \<le> of_int (2 ^ 53)" using k(2) by (simp only: of_int_le_iff)
    then have k53: "rat_of_int k \<le> 2 ^ 53" by simp
    have "r \<le> of_int k * 1"
      unfolding r using k(1) p by (intro mult_left_mono) simp_all
    then have "r \<le> 2 ^ 53" using k53 by simp
    then have "r = 2 ^ 53" using assms(3) by simp
    then have "of_int k * pow2 (e - 52) = 2 ^ 53" using r by simp
    moreover have "of_int k * pow2 (e - 52) < 2 ^ 53"
    proof (cases "k = 0")
      case True
      then show ?thesis by simp
    next
      case False
      then have "0 < rat_of_int k" using k(1) by simp
      then have "of_int k * pow2 (e - 52) < of_int k * 1"
        using p by (intro mult_strict_left_mono)
      then show ?thesis using k53 by simp
    qed
    ultimately show False by simp
  qed
  then have "pow2 (e - 52) = of_int (2 ^ nat (e - 52))" by (rule pow2_of_int)
  then have "r = of_int (k * 2 ^ nat (e - 52))" unfolding r by simp
  then show ?thesis by (rule exI)
qed

lemma js_neg_Fin: "js_neg v = Fin x \<Longrightarrow> v = Fin (- x)"
  by (cases v) auto

lemma fl_large_integer:
  assumes "fl q = Fin r" "2 ^ 53 \<le> r"
  shows "\<exists>m :: int. r = of_int m"
proof -
  have r: "0 < r" using assms(2) by (rule less_le_trans [rotated]) simp
  consider "q = 0" | "0 < q" | "q < 0" by linarith
  then show ?thesis
  proof cases
    case 1
    then show ?thesis using assms r by (simp add: fl_def)
  next
    case 2
    then have "fl_pos q = Fin r" using assms(1) by (simp add: fl_def)
    then show ?thesis using 2 assms(2) by (intro fl_pos_large_integer [of q])
  next
    case 3
    then have "js_neg (fl_pos (- q)) = Fin r" using assms(1) by (simp add: fl_def)
    then have "fl_pos (- q) = Fin (- r)" by (rule js_neg_Fin)
    then have "0 \<le> - r" using 3 by (intro fl_pos_nonneg [of "- q"]) simp_all
    then show ?thesis using r by simp
  qed
qed

lemma js_neg_fl: "js_neg (fl q) = fl (- q)"
proof -
  have i: "js_neg (js_neg v) = v" for v by (cases v) simp_all
  consider "q = 0" | "0 < q" | "q < 0" by linarith
  then show ?thesis by cases (simp_all add: fl_def i)
qed

lemma unsigned_decimal_shape:
  "unsigned_decimal s = Some (v, t) \<Longrightarrow> v = PosInf \<or> (\<exists>q. v = fl q)"
  by (auto simp: unsigned_decimal_def Let_def split: if_splits prod.splits)

lemma str_decimal_shape:
  assumes "str_decimal s = Some (v, t)"
  shows "v = PosInf \<or> v = NegInf \<or> (\<exists>q. v = fl q)"
proof (cases s)
  case Nil
  then show ?thesis using assms by (simp add: str_decimal_def)
next
  case (Cons c r)
  consider "c = CHR ''+''" | "c = CHR ''-''" | "c \<noteq> CHR ''+''" "c \<noteq> CHR ''-''" by blast
  then show ?thesis
  proof cases
    case 1
    then have "unsigned_decimal r = Some (v, t)" using assms Cons by (simp add: str_decimal_def)
    then show ?thesis using unsigned_decimal_shape by blast
  next
    case 2
    then obtain w where w: "unsigned_decimal r = Some (w, t)" and v: "v = js_neg w"
      using assms Cons by (auto simp: str_decimal_def)
    from unsigned_decimal_shape [OF w] show ?thesis
    proof
      assume "w = PosInf"
      then show ?thesis using v by simp
    next
      assume "\<exists>q. w = fl q"
      then obtain q where "w = fl q" by blast
      then have "v = fl (- q)" using v by (simp add: js_neg_fl)
      then show ?thesis by blast
    qed
  next
    case 3
    then have "unsigned_decimal s = Some (v, t)" using assms Cons by (simp add: str_decimal_def)
    then show ?thesis using unsigned_decimal_shape by blast
  qed
qed

lemma parseFloat_large_integer:
  assumes "parseFloat s = Fin x" "10 ^ 21 \<le> x"
  shows "\<exists>m :: int. x = of_int m"
proof -
  obtain t where "str_decimal (trimStart s) = Some (Fin x, t)"
    using assms(1) by (auto simp: parseFloat_def split: option.splits)
  then obtain q where q: "fl q = Fin x" using str_decimal_shape by fastforce
  have "(2::rat) ^ 53 \<le> 10 ^ 21" by simp
  then have "2 ^ 53 \<le> x" using assms(2) by linarith
  then show ?thesis using q by (intro fl_large_integer [of q])
qed

lemma parseFloat_12_345: "parseFloat ''12.345'' = Fin (6949617174986097 / 2 ^ 49)"
  by code_simp

lemma Number_12_35: "js_Number ''12.35'' = Fin (6952431924753203 / 2 ^ 49)"
  by code_simp

lemma stored_12_345: "Number_toFixed2 (Fin (6949617174986097 / 2 ^ 49)) = Fin (6952431924753203 / 2 ^ 49)"
  by code_simp

text \<open>
  C5. When a draft is accepted, its amount parses to a finite number \<open>x\<close> above zero, and
  the new record, put in front of the others, stores the number that the numeral of \<open>x\<close>
  rounded half up to two decimals denotes. (From \<open>10 ^ 21\<close> on, \<open>x\<close> is a whole number and is
  stored as it is.) The amount text \<open>12.345\<close> is stored as the number \<open>12.35\<close>.
\<close>

theorem handleSubmit_rounds_half_up:
  assumes "trim (draft_description (draft st)) \<noteq> []"
    and "parseFloat (draft_amount (draft st)) = Fin x" and "0 < x"
    and "draft_date (draft st) \<noteq> []" and "\<not> isNaN (P (draft_date (draft st)))"
  shows "expenses (handleSubmit P u n st) = hd (expenses (handleSubmit P u n st)) # expenses st
    \<and> error (handleSubmit P u n st) = None
    \<and> amount (hd (expenses (handleSubmit P u n st))) =
        (if x < 10 ^ 21 then fl (toFixed2 x) else Fin x)
    \<and> rounds_half_up_to x (if x < 10 ^ 21 then toFixed2 x else x)
    \<and> (draft_amount (draft st) = ''12.345'' \<longrightarrow>
         amount (hd (expenses (handleSubmit P u n st))) = js_Number ''12.35'')"
proof -
  have ok: "isFinite (parseFloat (draft_amount (draft st)))"
    "\<not> js_le (parseFloat (draft_amount (draft st))) (Fin 0)"
    using assms(2,3) by simp_all
  have am: "amount (hd (expenses (handleSubmit P u n st))) = Number_toFixed2 (Fin x)"
    using assms(1,4,5) ok by (simp add: handleSubmit_cases assms(2))
  have 1: "expenses (handleSubmit P u n st) = hd (expenses (handleSubmit P u n st)) # expenses st"
    using assms(1,4,5) ok by (simp add: handleSubmit_cases)
  have 2: "error (handleSubmit P u n st) = None"
    using assms(1,4,5) ok by (simp add: handleSubmit_cases)
  have 3: "amount (hd (expenses (handleSubmit P u n st))) =
        (if x < 10 ^ 21 then fl (toFixed2 x) else Fin x)"
    unfolding am using assms(3) by simp
  have 4: "rounds_half_up_to x (if x < 10 ^ 21 then toFixed2 x else x)"
  proof (cases "x < 10 ^ 21")
    case True
    then show ?thesis using toFixed2_half_up [of x] assms(3) by simp
  next
    case False
    then obtain m :: int where "x = of_int m"
      using parseFloat_large_integer [OF assms(2)] by auto
    then show ?thesis using False integer_rounds_to_itself by simp
  qed
  have 5: "draft_amount (draft st) = ''12.345'' \<longrightarrow>
         amount (hd (expenses (handleSubmit P u n st))) = js_Number ''12.35''"
  proof
    assume "draft_amount (draft st) = ''12.345''"
    then have "Fin x = Fin (6949617174986097 / 2 ^ 49)"
      using assms(2) parseFloat_12_345 by (simp only:)
    then show "amount (hd (expenses (handleSubmit P u n st))) = js_Number ''12.35''"
      unfolding am Number_12_35 using stored_12_345 by (simp only:)
  qed
  from 1 2 3 4 5 show ?thesis by blast
qed

theorem handleSubmit_rounds_half_up_witness:
  "trim (draft_description (draft ex_state)) \<noteq> []
   \<and> parseFloat (draft_amount (draft ex_state)) = Fin (6949617174986097 / 2 ^ 49)
   \<and> (0::rat) < 6949617174986097 / 2 ^ 49
   \<and> draft_date (draft ex_state) \<noteq> []
   \<and> \<not> isNaN (ex_Date_parse (draft_date (draft ex_state)))
   \<and> draft_amount (draft ex_state) = ''12.345''
   \<and> amount (hd (expenses (handleSubmit ex_Date_parse ''u'' ''t'' ex_state))) = js_Number ''12.35''
   \<and> js_Number ''12.35'' = fl (1235 / 100)"
proof -
  have a: "trim (draft_description (draft ex_state)) \<noteq> []" by code_simp
  have d: "draft_amount (draft ex_state) = ''12.345''" by (simp add: ex_state_def ex_draft_def)
  have b: "parseFloat (draft_amount (draft ex_state)) = Fin (6949617174986097 / 2 ^ 49)"
    unfolding d by (rule parseFloat_12_345)
  have c: "(0::rat) < 6949617174986097 / 2 ^ 49" by simp
  have e: "draft_date (draft ex_state) \<noteq> []" by (simp add: ex_state_def ex_draft_def)
  have f: "\<not> isNaN (ex_Date_parse (draft_date (draft ex_state)))" by code_simp
  have g: "js_Number ''12.35'' = fl (1235 / 100)" by code_simp
  show ?thesis
    using a b c d e f g
      handleSubmit_rounds_half_up [of ex_state "6949617174986097 / 2 ^ 49" ex_Date_parse "''u''" "''t''"]
    by blast
qed

lemma sorted_insort_by_on:
  assumes tot: "\<And>a b. a \<in> S \<Longrightarrow> b \<in> S \<Longrightarrow> cmp a b \<le> 0 \<or> cmp b a \<le> 0"
    and tr: "\<And>a b c. a \<in> S \<Longrightarrow> b \<in> S \<Longrightarrow> c \<in> S \<Longrightarrow> cmp a b \<le> 0 \<Longrightarrow> cmp b c \<le> 0
               \<Longrightarrow> cmp a c \<le> 0"
  shows "x \<in> S \<Longrightarrow> set xs \<subseteq> S \<Longrightarrow> sorted_wrt (\<lambda>a b. cmp a b \<le> 0) xs
         \<Longrightarrow> sorted_wrt (\<lambda>a b. cmp a b \<le> 0) (insort_by cmp x xs)"
proof (induction xs)
  case Nil
  then show ?case by simp
next
  case (Cons y ys)
  show ?case
  proof (cases "cmp x y \<le> 0")
    case True
    have "cmp x z \<le> 0" if "z \<in> set ys" for z
    proof -
      have "cmp y z \<le> 0" using Cons.prems(3) that by simp
      then show ?thesis using tr [of x y z] True Cons.prems(1,2) that by auto
    qed
    then show ?thesis using True Cons.prems(3) by simp
  next
    case False
    then have "cmp y x \<le> 0" using tot [of x y] Cons.prems(1,2) by auto
    then show ?thesis using False Cons by (auto simp: set_insort_by)
  qed
qed

lemma set_js_sort: "set (js_sort cmp xs) = set xs"
  using mset_js_sort [of cmp xs] by (metis set_mset_mset)

lemma sorted_js_sort_on:
  assumes tot: "\<And>a b. a \<in> S \<Longrightarrow> b \<in> S \<Longrightarrow> cmp a b \<le> 0 \<or> cmp b a \<le> 0"
    and tr: "\<And>a b c. a \<in> S \<Longrightarrow> b \<in> S \<Longrightarrow> c \<in> S \<Longrightarrow> cmp a b \<le> 0 \<Longrightarrow> cmp b c \<le> 0
               \<Longrightarrow> cmp a c \<le> 0"
  shows "set xs \<subseteq> S \<Longrightarrow> sorted_wrt (\<lambda>a b. cmp a b \<le> 0) (js_sort cmp xs)"
proof (induction xs)
  case Nil
  then show ?case by (simp add: js_sort_def)
next
  case (Cons x xs)
  have e: "js_sort cmp (x # xs) = insort_by cmp x (js_sort cmp xs)" by (simp add: js_sort_def)
  have "sorted_wrt (\<lambda>a b. cmp a b \<le> 0) (js_sort cmp xs)" using Cons by simp
  moreover have "x \<in> S" "set (js_sort cmp xs) \<subseteq> S" using Cons.prems by (simp_all add: set_js_sort)
  ultimately show ?case unfolding e using tot tr by (intro sorted_insort_by_on [of S cmp]) blast+
qed

lemma map_of_set_property: "map_of (set_property k v acc) = (map_of acc)(k \<mapsto> v)"
  by (induction acc) (auto simp: fun_eq_iff)

lemma set_set_property: "set (set_property k v acc) \<subseteq> insert (k, v) (set acc)"
  by (induction acc) (auto split: if_splits)

lemma keys_set_property:
  "map fst (set_property k v acc) =
     (if k \<in> fst ` set acc then map fst acc else map fst acc @ [k])"
  by (induction acc) (force split: if_splits)+

lemma set_property_not_empty: "set_property k v acc \<noteq> []"
  by (cases acc) (auto split: if_splits)

lemma foldl_add_to_category_not_empty:
  "acc \<noteq> [] \<Longrightarrow> foldl add_to_category acc xs \<noteq> []"
  by (induction xs arbitrary: acc) (simp_all add: add_to_category_def set_property_not_empty)

lemma foldl_add_to_category_empty_iff: "foldl add_to_category [] xs = [] \<longleftrightarrow> xs = []"
  by (cases xs)
    (simp_all add: foldl_add_to_category_not_empty add_to_category_def set_property_not_empty)

lemma distinct_add_to_category:
  "distinct (map fst acc) \<Longrightarrow> distinct (map fst (add_to_category acc e))"
  by (simp add: add_to_category_def keys_set_property)

lemma distinct_foldl_add_to_category:
  "distinct (map fst acc) \<Longrightarrow> distinct (map fst (foldl add_to_category acc xs))"
  by (induction xs arbitrary: acc) (simp_all add: distinct_add_to_category)

lemma map_of_add_to_category:
  "map_of (add_to_category acc e) c =
     (if category e = c
      then Some (js_add (case map_of acc c of None \<Rightarrow> Fin 0 | Some v \<Rightarrow> v) (amount e))
      else map_of acc c)"
  by (simp add: add_to_category_def map_of_set_property)

lemma map_of_foldl_add_to_category:
  "map_of (foldl add_to_category acc xs) c =
     (if \<exists>e \<in> set xs. category e = c
      then Some (foldl (\<lambda>sum e. js_add sum (amount e))
                   (case map_of acc c of None \<Rightarrow> Fin 0 | Some v \<Rightarrow> v)
                   (filter (\<lambda>e. category e = c) xs))
      else map_of acc c)"
proof (induction xs arbitrary: acc)
  case Nil
  then show ?case by simp
next
  case (Cons x xs)
  show ?case
  proof (cases "category x = c")
    case True
    then show ?thesis by (simp add: Cons map_of_add_to_category)
  next
    case False
    then show ?thesis by (simp add: Cons map_of_add_to_category)
  qed
qed

lemma aggregated_sum:
  assumes "(c, v) \<in> set (foldl add_to_category [] xs)"
  shows "v = total_of (filter (\<lambda>e. category e = c) xs)"
proof -
  have "distinct (map fst (foldl add_to_category [] xs))"
    by (rule distinct_foldl_add_to_category) simp
  then have "map_of (foldl add_to_category [] xs) c = Some v" using assms by simp
  then show ?thesis
    unfolding map_of_foldl_add_to_category total_of_def by (simp split: if_splits)
qed

lemma js_add_finite_not_NaN: "v \<noteq> NaN \<Longrightarrow> js_add v (Fin a) \<noteq> NaN"
  by (cases v) (simp_all add: fl_not_NaN)

lemma add_to_category_values:
  assumes "\<forall>p \<in> set acc. on_grid (snd p) \<and> snd p \<noteq> NaN" and "isFinite (amount e)"
  shows "\<forall>p \<in> set (add_to_category acc e). on_grid (snd p) \<and> snd p \<noteq> NaN"
proof -
  obtain a where a: "amount e = Fin a" using assms(2) by (cases "amount e") simp_all
  define old where "old = (case map_of acc (category e) of None \<Rightarrow> Fin 0 | Some v \<Rightarrow> v)"
  have "old \<noteq> NaN"
  proof (cases "map_of acc (category e)")
    case None
    then show ?thesis by (simp add: old_def)
  next
    case (Some v)
    then have "(category e, v) \<in> set acc" by (rule map_of_SomeD)
    then show ?thesis using assms(1) Some by (auto simp: old_def)
  qed
  then have w: "on_grid (js_add old (Fin a)) \<and> js_add old (Fin a) \<noteq> NaN"
    by (simp add: on_grid_js_add js_add_finite_not_NaN)
  have "set (add_to_category acc e) \<subseteq> insert (category e, js_add old (Fin a)) (set acc)"
    unfolding add_to_category_def old_def a by (rule set_set_property)
  then show ?thesis using w assms(1) by auto
qed

lemma foldl_add_to_category_values:
  assumes "\<forall>e \<in> set xs. isFinite (amount e)"
  shows "\<forall>p \<in> set acc. on_grid (snd p) \<and> snd p \<noteq> NaN \<Longrightarrow>
         \<forall>p \<in> set (foldl add_to_category acc xs). on_grid (snd p) \<and> snd p \<noteq> NaN"
  using assms
proof (induction xs arbitrary: acc)
  case Nil
  then show ?case by simp
next
  case (Cons x xs)
  have "\<forall>p \<in> set (add_to_category acc x). on_grid (snd p) \<and> snd p \<noteq> NaN"
    using Cons.prems by (intro add_to_category_values) simp_all
  then show ?case using Cons.IH [of "add_to_category acc x"] Cons.prems(2) by simp
qed

lemma js_le_refl: "v \<noteq> NaN \<Longrightarrow> js_le v v"
  by (cases v) simp_all

lemma js_le_total: "x \<noteq> NaN \<Longrightarrow> y \<noteq> NaN \<Longrightarrow> js_le x y \<or> js_le y x"
  by (cases x; cases y) auto

lemma js_le_trans: "js_le x y \<Longrightarrow> js_le y z \<Longrightarrow> js_le x z"
  by (cases x; cases y; cases z) simp_all

lemma mset_Object_entries: "mset (Object_entries obj) = mset obj"
  by (simp add: Object_entries_def mset_js_sort)

lemma set_Object_entries: "set (Object_entries obj) = set obj"
  using mset_Object_entries [of obj] by (metis set_mset_mset)

lemma Object_entries_no_index:
  assumes "\<forall>p \<in> set obj. \<not> is_array_index (fst p)"
  shows "Object_entries obj = obj"
proof -
  have "filter (\<lambda>p. is_array_index (fst p)) obj = []" using assms by (simp add: filter_empty_conv)
  moreover have "filter (\<lambda>p. \<not> is_array_index (fst p)) obj = obj"
    using assms by (simp add: filter_id_conv)
  ultimately show ?thesis by (simp add: Object_entries_def js_sort_def)
qed

lemma js_sign_sub_self: "js_sign (js_sub v v) \<le> 0"
  by (cases v) (simp_all add: js_sub_def fl_def)

lemma topCategory_None_iff: "topCategory obj = None \<longleftrightarrow> obj = []"
proof -
  define s where "s = js_sort (\<lambda>a b. js_sign (js_sub (snd b) (snd a))) (Object_entries obj)"
  have "mset s = mset obj" by (simp add: s_def mset_js_sort mset_Object_entries)
  then have "s = [] \<longleftrightarrow> obj = []" by (metis mset_zero_iff)
  moreover have "topCategory obj = None \<longleftrightarrow> s = []"
    unfolding topCategory_def s_def [symmetric] by (cases s) simp_all
  ultimately show ?thesis by simp
qed

lemma topCategory_Some:
  assumes v: "\<forall>p \<in> set obj. on_grid (snd p) \<and> snd p \<noteq> NaN"
    and t: "topCategory obj = Some first"
  shows "first \<in> set obj \<and> (\<forall>p \<in> set obj. js_le (snd p) (snd first))
         \<and> hd (filter (\<lambda>p. snd p = snd first) (Object_entries obj)) = first"
proof -
  define cmp :: "string \<times> jsnum \<Rightarrow> string \<times> jsnum \<Rightarrow> int"
    where "cmp = (\<lambda>a b. js_sign (js_sub (snd b) (snd a)))"
  define s where "s = js_sort cmp (Object_entries obj)"
  have le: "cmp a b \<le> 0 \<longleftrightarrow> js_le (snd b) (snd a)" if "a \<in> set obj" "b \<in> set obj" for a b
    unfolding cmp_def using v that by (intro js_sign_sub) simp_all
  have set_s: "set s = set obj" by (simp add: s_def set_js_sort set_Object_entries)
  have sorted: "sorted_wrt (\<lambda>a b. cmp a b \<le> 0) s"
    unfolding s_def
  proof (rule sorted_js_sort_on [where S = "set obj"])
    show "set (Object_entries obj) \<subseteq> set obj" by (simp add: set_Object_entries)
  next
    fix a b assume "a \<in> set obj" "b \<in> set obj"
    then show "cmp a b \<le> 0 \<or> cmp b a \<le> 0"
      using le js_le_total [of "snd b" "snd a"] v by auto
  next
    fix a b c assume "a \<in> set obj" "b \<in> set obj" "c \<in> set obj" "cmp a b \<le> 0" "cmp b c \<le> 0"
    then show "cmp a c \<le> 0" using le js_le_trans [of "snd c" "snd b" "snd a"] by auto
  qed
  obtain others where s: "s = first # others"
    using t unfolding topCategory_def cmp_def [symmetric] s_def [symmetric]
    by (cases s) simp_all
  have mem: "first \<in> set obj" using s set_s by auto
  have max: "js_le (snd p) (snd first)" if "p \<in> set obj" for p
  proof (cases "p = first")
    case True
    then show ?thesis using v mem by (simp add: js_le_refl)
  next
    case False
    then have "p \<in> set others" using that s set_s by auto
    then have "cmp first p \<le> 0" using sorted s by simp
    then show ?thesis using le [OF mem that] by simp
  qed
  have "filter (\<lambda>p. snd p = snd first) s = filter (\<lambda>p. snd p = snd first) (Object_entries obj)"
    unfolding s_def
  proof (rule filter_js_sort)
    fix x y :: "string \<times> jsnum"
    assume "snd x = snd first" "snd y = snd first"
    then show "cmp x y \<le> 0" unfolding cmp_def by (simp add: js_sign_sub_self)
  qed
  then have "filter (\<lambda>p. snd p = snd first) (Object_entries obj) =
             first # filter (\<lambda>p. snd p = snd first) others"
    using s by simp
  then have "hd (filter (\<lambda>p. snd p = snd first) (Object_entries obj)) = first"
    by simp
  then show ?thesis using mem max by blast
qed

text \<open>
  C7, as the code has it. Let no category name a property that every object inherits, and
  let every amount be finite. Each entry of the aggregation carries the sum of the amounts
  of its category. The top category is \<open>None\<close> exactly when the aggregation is empty, which
  is when there is no record. Otherwise it is an entry of the aggregation whose sum no other
  sum exceeds, and among the entries with that sum it is the first in the order of
  \<open>Object.entries\<close>: categories that are array indices come first, in numeric order, and the
  others follow in the order of their insertion. Where no category is an array index, that
  is the order of insertion.
\<close>

theorem topCategory_largest_sum:
  assumes "categories xs = Some obj" and "\<forall>e \<in> set xs. isFinite (amount e)"
  shows "(\<forall>c v. (c, v) \<in> set obj \<longrightarrow> v = total_of (filter (\<lambda>e. category e = c) xs))
    \<and> (topCategory obj = None \<longleftrightarrow> obj = [])
    \<and> (obj = [] \<longleftrightarrow> xs = [])
    \<and> (\<forall>first. topCategory obj = Some first \<longrightarrow>
          first \<in> set obj \<and> (\<forall>p \<in> set obj. js_le (snd p) (snd first)) \<and>
          hd (filter (\<lambda>p. snd p = snd first) (Object_entries obj)) = first)
    \<and> ((\<forall>p \<in> set obj. \<not> is_array_index (fst p)) \<longrightarrow> Object_entries obj = obj)"
proof -
  have obj: "obj = foldl add_to_category [] xs"
    using assms(1) by (simp add: categories_def split: if_splits)
  have 1: "\<forall>c v. (c, v) \<in> set obj \<longrightarrow> v = total_of (filter (\<lambda>e. category e = c) xs)"
    unfolding obj using aggregated_sum by blast
  have 2: "topCategory obj = None \<longleftrightarrow> obj = []" by (rule topCategory_None_iff)
  have 3: "obj = [] \<longleftrightarrow> xs = []" unfolding obj by (rule foldl_add_to_category_empty_iff)
  have v: "\<forall>p \<in> set obj. on_grid (snd p) \<and> snd p \<noteq> NaN"
    unfolding obj using assms(2) by (intro foldl_add_to_category_values) simp_all
  have 4: "\<forall>first. topCategory obj = Some first \<longrightarrow>
          first \<in> set obj \<and> (\<forall>p \<in> set obj. js_le (snd p) (snd first)) \<and>
          hd (filter (\<lambda>p. snd p = snd first) (Object_entries obj)) = first"
    using topCategory_Some [OF v] by blast
  have 5: "(\<forall>p \<in> set obj. \<not> is_array_index (fst p)) \<longrightarrow> Object_entries obj = obj"
    using Object_entries_no_index by blast
  from 1 2 3 4 5 show ?thesis by blast
qed

theorem topCategory_largest_sum_witness:
  "filteredExpenses code_unit_compare ''2024-03'' ''all'' [] [ex_food, ex_tech, ex_late] =
     [ex_tech, ex_late, ex_food]
   \<and> categories [ex_tech, ex_late, ex_food] =
     Some [(''Tech'', Fin 20), (''Transport'', Fin 10), (''Food'', Fin 10)]
   \<and> list_all (\<lambda>e. isFinite (amount e)) [ex_tech, ex_late, ex_food]
   \<and> topCategory [(''Tech'', Fin 20), (''Transport'', Fin 10), (''Food'', Fin 10)] =
       Some (''Tech'', Fin 20)
   \<and> list_all (\<lambda>p. js_le (snd p) (Fin 20))
        [(''Tech'', Fin 20), (''Transport'', Fin 10), (''Food'', Fin 10)]
   \<and> categories [ex_late, ex_food] = Some [(''Transport'', Fin 10), (''Food'', Fin 10)]
   \<and> topCategory [(''Transport'', Fin 10), (''Food'', Fin 10)] = Some (''Transport'', Fin 10)"
proof -
  have o: "filteredExpenses code_unit_compare ''2024-03'' ''all'' [] [ex_food, ex_tech, ex_late] =
     [ex_tech, ex_late, ex_food]"
    by code_simp
  have a: "categories [ex_tech, ex_late, ex_food] =
     Some [(''Tech'', Fin 20), (''Transport'', Fin 10), (''Food'', Fin 10)]"
    by code_simp
  have b: "\<forall>e \<in> set [ex_tech, ex_late, ex_food]. isFinite (amount e)"
    by (simp add: ex_food_def ex_tech_def ex_late_def)
  have c: "topCategory [(''Tech'', Fin 20), (''Transport'', Fin 10), (''Food'', Fin 10)] =
       Some (''Tech'', Fin 20)"
    by code_simp
  have d: "categories [ex_late, ex_food] = Some [(''Transport'', Fin 10), (''Food'', Fin 10)]"
    "topCategory [(''Transport'', Fin 10), (''Food'', Fin 10)] = Some (''Transport'', Fin 10)"
    by code_simp+
  have "\<forall>p \<in> set [(''Tech'', Fin 20), (''Transport'', Fin 10), (''Food'', Fin 10)].
          js_le (snd p) (snd (''Tech'', Fin 20))"
    using a b c
      topCategory_largest_sum [of "[ex_tech, ex_late, ex_food]"
        "[(''Tech'', Fin 20), (''Transport'', Fin 10), (''Food'', Fin 10)]"]
    by blast
  then have e: "list_all (\<lambda>p. js_le (snd p) (Fin 20))
        [(''Tech'', Fin 20), (''Transport'', Fin 10), (''Food'', Fin 10)]"
    by (simp add: list_all_iff)
  have f: "list_all (\<lambda>e. isFinite (amount e)) [ex_tech, ex_late, ex_food]"
    using b by (simp add: list_all_iff)
  from o a c d e f show ?thesis by simp
qed

text \<open>
  The claim C7 as it is worded fails on the tie. The timeline of March 2024 made of the
  records \<open>ex_seven\<close> and \<open>ex_food\<close> has \<open>ex_food\<close> first, so the category \<open>Food\<close> is
  inserted before the category \<open>7\<close>; their sums are equal; and the top category is \<open>7\<close>.
\<close>

theorem topCategory_tie_counterexample:
  "filteredExpenses code_unit_compare ''2024-03'' ''all'' [] [ex_seven, ex_food] =
     [ex_food, ex_seven]
   \<and> categories [ex_food, ex_seven] = Some [(''Food'', Fin 10), (''7'', Fin 10)]
   \<and> hd (filter (\<lambda>p. snd p = Fin 10) [(''Food'', Fin 10), (''7'', Fin 10)]) = (''Food'', Fin 10)
   \<and> Object_entries [(''Food'', Fin 10), (''7'', Fin 10)] = [(''7'', Fin 10), (''Food'', Fin 10)]
   \<and> topCategory [(''Food'', Fin 10), (''7'', Fin 10)] = Some (''7'', Fin 10)"
proof -
  have o: "filteredExpenses code_unit_compare ''2024-03'' ''all'' [] [ex_seven, ex_food] =
     [ex_food, ex_seven]"
    by code_simp
  have a: "categories [ex_food, ex_seven] = Some [(''Food'', Fin 10), (''7'', Fin 10)]"
    by code_simp
  have b: "Object_entries [(''Food'', Fin 10), (''7'', Fin 10)] = [(''7'', Fin 10), (''Food'', Fin 10)]"
    by code_simp
  have c: "topCategory [(''Food'', Fin 10), (''7'', Fin 10)] = Some (''7'', Fin 10)"
    by code_simp
  from o a b c show ?thesis by simp
qed

end
